theory Spec2Isabelle
  imports Main "HOL-Library.Multiset"
begin

section \<open>Board and game state (QY\_Project2\_PartB.py)\<close>

text \<open>
  A cell of \<open>Board.c\<close> holds one of the three one-character strings \<open>" "\<close>, \<open>"X"\<close>
  and \<open>"O"\<close>. The marks of the two players are \<open>Cross\<close> (\<open>"X"\<close>) and \<open>Nought\<close>
  (\<open>"O"\<close>); \<open>main\<close> accepts no other choice for the human player. A cell is \<open>Blank\<close>
  (\<open>" "\<close>) or carries a mark.
\<close>

datatype mark = Cross | Nought

datatype cell = Blank | Mark mark

text \<open>
  \<open>Board.c\<close> is a list of three lists of three cells, created by \<open>Board.__init__\<close> and
  only ever changed by assignments \<open>c[row][col] = v\<close>, with indices in \<open>range(3)\<close>. It is
  modelled as the total map from row and column to the cell there: \<open>c[i][j]\<close> reads
  \<open>board g i j\<close>.
\<close>

type_synonym grid = "nat \<Rightarrow> nat \<Rightarrow> cell"

record game =
  board :: grid
  turn :: mark
  human :: mark
  computer :: mark

definition Board :: grid where
  "Board = (\<lambda>i j. Blank)"

definition Game :: "mark \<Rightarrow> game" where
  "Game human_player =
     \<lparr>board = Board, turn = Cross, human = human_player,
      computer = (if human_player = Cross then Nought else Cross)\<rparr>"

text \<open>The assignment \<open>self.board.c[row][col] = v\<close>.\<close>

definition set_cell :: "game \<Rightarrow> nat \<Rightarrow> nat \<Rightarrow> cell \<Rightarrow> game" where
  "set_cell g row col v = g\<lparr>board := (board g)(row := (board g row)(col := v))\<rparr>"

definition switchPlayer :: "game \<Rightarrow> game" where
  "switchPlayer g = (if turn g = Cross then g\<lparr>turn := Nought\<rparr> else g\<lparr>turn := Cross\<rparr>)"

definition validateEntry :: "game \<Rightarrow> int \<Rightarrow> int \<Rightarrow> bool" where
  "validateEntry g row col =
     (if row < 0 \<or> row > 2 \<or> col < 0 \<or> col > 2 then False
      else if board g (nat row) (nat col) \<noteq> Blank then False
      else True)"

definition checkFull :: "game \<Rightarrow> bool" where
  "checkFull g = (\<not> list_ex (\<lambda>i. list_ex (\<lambda>j. board g i j = Blank) [0..<3]) [0..<3])"

definition checkWin :: "game \<Rightarrow> bool" where
  "checkWin g =
     (if list_ex (\<lambda>i. board g i 0 = board g i 1 \<and> board g i 1 = board g i 2
                        \<and> board g i 0 \<noteq> Blank) [0..<3] then True
      else if list_ex (\<lambda>j. board g 0 j = board g 1 j \<and> board g 1 j = board g 2 j
                        \<and> board g 0 j \<noteq> Blank) [0..<3] then True
      else if board g 0 0 = board g 1 1 \<and> board g 1 1 = board g 2 2 \<and> board g 0 0 \<noteq> Blank
      then True
      else if board g 0 2 = board g 1 1 \<and> board g 1 1 = board g 2 0 \<and> board g 0 2 \<noteq> Blank
      then True
      else False)"

text \<open>
  \<open>getWinner\<close> returns the string of a cell, or Python's \<open>None\<close>. Each of the two
  \<open>for\<close> loops returns from its first index that passes the test (\<open>find\<close>).
\<close>

definition getWinner :: "game \<Rightarrow> cell option" where
  "getWinner g =
     (case find (\<lambda>i. board g i 0 = board g i 1 \<and> board g i 1 = board g i 2
                      \<and> board g i 0 \<noteq> Blank) [0..<3] of
        Some i \<Rightarrow> Some (board g i 0)
      | None \<Rightarrow>
     (case find (\<lambda>j. board g 0 j = board g 1 j \<and> board g 1 j = board g 2 j
                      \<and> board g 0 j \<noteq> Blank) [0..<3] of
        Some j \<Rightarrow> Some (board g 0 j)
      | None \<Rightarrow>
     (if board g 0 0 = board g 1 1 \<and> board g 1 1 = board g 2 2 \<and> board g 0 0 \<noteq> Blank
      then Some (board g 0 0)
      else if board g 0 2 = board g 1 1 \<and> board g 1 1 = board g 2 0 \<and> board g 0 2 \<noteq> Blank
      then Some (board g 0 2)
      else None)))"

definition checkEnd :: "game \<Rightarrow> bool" where
  "checkEnd g = (if checkWin g then True else if checkFull g then True else False)"

definition getAvailableMoves :: "game \<Rightarrow> (nat \<times> nat) list" where
  "getAvailableMoves g =
     concat (map (\<lambda>i. concat (map (\<lambda>j. if board g i j = Blank then [(i, j)] else [])
                                  [0..<3])) [0..<3])"

subsection \<open>Scores\<close>

text \<open>
  \<open>minimax\<close> computes with Python integers and with the two floats \<open>float('-inf')\<close> and
  \<open>float('inf')\<close> that start the running maximum and minimum.
\<close>

datatype score = NegInf | Fin int | PosInf

fun score_less :: "score \<Rightarrow> score \<Rightarrow> bool" where
  "score_less NegInf NegInf = False"
| "score_less NegInf (Fin b) = True"
| "score_less NegInf PosInf = True"
| "score_less (Fin a) NegInf = False"
| "score_less (Fin a) (Fin b) = (a < b)"
| "score_less (Fin a) PosInf = True"
| "score_less PosInf b = False"

text \<open>Python's \<open>max(a, b)\<close> and \<open>min(a, b)\<close>: the first argument stays unless the second beats it.\<close>

definition py_max :: "score \<Rightarrow> score \<Rightarrow> score" where
  "py_max a b = (if score_less a b then b else a)"

definition py_min :: "score \<Rightarrow> score \<Rightarrow> score" where
  "py_min a b = (if score_less b a then b else a)"

subsection \<open>The search\<close>

text \<open>
  A \<open>for\<close> loop over a list whose body may call \<open>minimax\<close>: the loop state is threaded
  through the iterations, and the loop returns nothing when an iteration does not return.
\<close>

fun for_each :: "'a list \<Rightarrow> ('a \<Rightarrow> 's \<Rightarrow> 's option) \<Rightarrow> 's \<Rightarrow> 's option" where
  "for_each [] body s = Some s"
| "for_each (x # xs) body s = Option.bind (body x s) (for_each xs body)"

lemma for_each_mono [partial_function_mono]:
  assumes "\<And>x s. mono_option (\<lambda>f. body f x s)"
  shows "mono_option (\<lambda>f. for_each xs (body f) s)"
proof (induction xs arbitrary: s)
  case Nil
  show ?case by (simp add: option.const_mono)
next
  case (Cons x xs)
  show ?case
    unfolding for_each.simps
    by (rule bind_mono [OF assms Cons.IH])
qed

text \<open>
  \<open>minimax\<close> works on the one shared board: it writes a mark, recurses, and writes
  \<open>" "\<close> back. The model passes the game state in and returns it with the score; the
  loop state is the running score and the game. \<open>None\<close> stands for a call that does
  not return.
\<close>

partial_function (option) minimax ::
  "game \<Rightarrow> int \<Rightarrow> bool \<Rightarrow> (score \<times> game) option" where
  "minimax g depth is_maximizing =
     (if getWinner g = Some (Mark (computer g)) then Some (Fin (10 - depth), g)
      else if getWinner g = Some (Mark (human g)) then Some (Fin (depth - 10), g)
      else if checkFull g then Some (Fin 0, g)
      else if is_maximizing then
        for_each (getAvailableMoves g)
          (\<lambda>mv st.
             Option.bind
               (minimax (set_cell (snd st) (fst mv) (snd mv) (Mark (computer (snd st))))
                  (depth + 1) False)
               (\<lambda>r. Some (py_max (fst r) (fst st), set_cell (snd r) (fst mv) (snd mv) Blank)))
          (NegInf, g)
      else
        for_each (getAvailableMoves g)
          (\<lambda>mv st.
             Option.bind
               (minimax (set_cell (snd st) (fst mv) (snd mv) (Mark (human (snd st))))
                  (depth + 1) True)
               (\<lambda>r. Some (py_min (fst r) (fst st), set_cell (snd r) (fst mv) (snd mv) Blank)))
          (PosInf, g))"

text \<open>
  \<open>getBestMove\<close>: the loop state is \<open>best_score\<close>, \<open>best_move\<close> (Python's \<open>None\<close>
  at the start) and the game.
\<close>

definition getBestMove :: "game \<Rightarrow> ((nat \<times> nat) option \<times> game) option" where
  "getBestMove g =
     map_option (\<lambda>st. (fst (snd st), snd (snd st)))
       (for_each (getAvailableMoves g)
          (\<lambda>mv st.
             Option.bind
               (minimax (set_cell (snd (snd st)) (fst mv) (snd mv)
                           (Mark (computer (snd (snd st))))) 0 False)
               (\<lambda>r. let s = set_cell (snd r) (fst mv) (snd mv) Blank in
                     if score_less (fst st) (fst r) then Some (fst r, Some mv, s)
                     else Some (fst st, fst (snd st), s)))
          (NegInf, None, g))"

text \<open>The score a call returned, for a call that returned an integer.\<close>

definition returned_score :: "(score \<times> game) option \<Rightarrow> int" where
  "returned_score r = (case r of Some (Fin v, s) \<Rightarrow> v | _ \<Rightarrow> 0)"

subsection \<open>The eight lines\<close>

text \<open>
  The lines of the board in the order rows, columns, main diagonal, anti-diagonal, each
  as its three coordinates.
\<close>

definition win_lines :: "((nat \<times> nat) \<times> (nat \<times> nat) \<times> (nat \<times> nat)) list" where
  "win_lines =
     [((0, 0), (0, 1), (0, 2)), ((1, 0), (1, 1), (1, 2)), ((2, 0), (2, 1), (2, 2)),
      ((0, 0), (1, 0), (2, 0)), ((0, 1), (1, 1), (2, 1)), ((0, 2), (1, 2), (2, 2)),
      ((0, 0), (1, 1), (2, 2)), ((0, 2), (1, 1), (2, 0))]"

definition cell_at :: "game \<Rightarrow> nat \<times> nat \<Rightarrow> cell" where
  "cell_at g p = board g (fst p) (snd p)"

definition line_complete :: "game \<Rightarrow> (nat \<times> nat) \<times> (nat \<times> nat) \<times> (nat \<times> nat) \<Rightarrow> bool" where
  "line_complete g l =
     (cell_at g (fst l) = cell_at g (fst (snd l)) \<and>
      cell_at g (fst (snd l)) = cell_at g (snd (snd l)) \<and>
      cell_at g (fst l) \<noteq> Blank)"

section \<open>Winner detection\<close>

lemma upt_3: "[0..<3] = [0, 1, 2]"
  by (simp add: upt_rec numeral_nat)

lemma row_complete:
  "(board g i 0 = board g i 1 \<and> board g i 1 = board g i 2 \<and> board g i 0 \<noteq> Blank)
     = line_complete g ((i, 0), (i, 1), (i, 2))"
  by (simp only: line_complete_def cell_at_def fst_conv snd_conv)

lemma col_complete:
  "(board g 0 j = board g 1 j \<and> board g 1 j = board g 2 j \<and> board g 0 j \<noteq> Blank)
     = line_complete g ((0, j), (1, j), (2, j))"
  by (simp only: line_complete_def cell_at_def fst_conv snd_conv)

lemma diag_complete:
  "(board g 0 0 = board g 1 1 \<and> board g 1 1 = board g 2 2 \<and> board g 0 0 \<noteq> Blank)
     = line_complete g ((0, 0), (1, 1), (2, 2))"
  by (simp only: line_complete_def cell_at_def fst_conv snd_conv)

lemma anti_complete:
  "(board g 0 2 = board g 1 1 \<and> board g 1 1 = board g 2 0 \<and> board g 0 2 \<noteq> Blank)
     = line_complete g ((0, 2), (1, 1), (2, 0))"
  by (simp only: line_complete_def cell_at_def fst_conv snd_conv)

lemma getWinner_lines:
  "getWinner g =
     (if line_complete g ((0, 0), (0, 1), (0, 2)) then Some (board g 0 0)
      else if line_complete g ((1, 0), (1, 1), (1, 2)) then Some (board g 1 0)
      else if line_complete g ((2, 0), (2, 1), (2, 2)) then Some (board g 2 0)
      else if line_complete g ((0, 0), (1, 0), (2, 0)) then Some (board g 0 0)
      else if line_complete g ((0, 1), (1, 1), (2, 1)) then Some (board g 0 1)
      else if line_complete g ((0, 2), (1, 2), (2, 2)) then Some (board g 0 2)
      else if line_complete g ((0, 0), (1, 1), (2, 2)) then Some (board g 0 0)
      else if line_complete g ((0, 2), (1, 1), (2, 0)) then Some (board g 0 2)
      else None)"
  unfolding getWinner_def diag_complete anti_complete row_complete col_complete upt_3
  by (simp only: find.simps option.case if_distrib [of "case_option _ _"])

text \<open>
  C4. \<open>getWinner\<close> looks at the eight lines in the order three rows, three columns, main
  diagonal, anti-diagonal and returns the content of the first line whose three cells are
  equal and not blank, and \<open>None\<close> when there is no such line.
\<close>

theorem getWinner_first_complete_line:
  "getWinner g =
     map_option (\<lambda>l. cell_at g (fst l)) (find (line_complete g) win_lines)"
  unfolding getWinner_lines win_lines_def
  by (simp only: find.simps cell_at_def fst_conv snd_conv option.map if_distrib [of "map_option _"])

lemma checkWin_lines:
  "checkWin g =
     (line_complete g ((0, 0), (0, 1), (0, 2)) \<or> line_complete g ((1, 0), (1, 1), (1, 2)) \<or>
      line_complete g ((2, 0), (2, 1), (2, 2)) \<or> line_complete g ((0, 0), (1, 0), (2, 0)) \<or>
      line_complete g ((0, 1), (1, 1), (2, 1)) \<or> line_complete g ((0, 2), (1, 2), (2, 2)) \<or>
      line_complete g ((0, 0), (1, 1), (2, 2)) \<or> line_complete g ((0, 2), (1, 1), (2, 0)))"
  unfolding checkWin_def diag_complete anti_complete row_complete col_complete upt_3
  by (simp only: list_ex_Nil_iff list_ex_Cons_iff simp_thms if_True if_False split: if_split) blast

text \<open>
  C10. \<open>checkWin\<close> answers \<open>True\<close> exactly when \<open>getWinner\<close> returns a mark rather than
  \<open>None\<close>.
\<close>

theorem checkWin_iff_getWinner:
  "checkWin g \<longleftrightarrow> getWinner g \<noteq> None"
  unfolding checkWin_lines getWinner_lines
  by (simp only: split: if_split) blast

section \<open>The search returns the value of the position and restores the board\<close>

lemma length_filter_less:
  assumes "x \<in> set xs" "P x" "\<not> Q x" "\<And>y. Q y \<Longrightarrow> P y"
  shows "length (filter Q xs) < length (filter P xs)"
  using assms(1)
proof (induction xs)
  case Nil
  then show ?case by simp
next
  case (Cons a xs)
  have le: "length (filter Q xs) \<le> length (filter P xs)"
    by (induction xs) (auto dest: assms(4))
  show ?case
  proof (cases "a = x")
    case True
    then show ?thesis using le assms(2,3) by simp
  next
    case False
    then have "x \<in> set xs" using Cons.prems by simp
    then have "length (filter Q xs) < length (filter P xs)" by (rule Cons.IH)
    then show ?thesis using assms(4) [of a] by auto
  qed
qed

definition cells :: "(nat \<times> nat) list" where
  "cells = [(0, 0), (0, 1), (0, 2), (1, 0), (1, 1), (1, 2), (2, 0), (2, 1), (2, 2)]"

lemma getAvailableMoves_filter:
  "getAvailableMoves g = filter (\<lambda>p. board g (fst p) (snd p) = Blank) cells"
  by (simp add: getAvailableMoves_def cells_def upt_3)

lemma available_blank:
  "mv \<in> set (getAvailableMoves g) \<Longrightarrow> board g (fst mv) (snd mv) = Blank"
  by (simp add: getAvailableMoves_filter)

lemma board_set_cell:
  "board (set_cell g r c v) i j = (if i = r \<and> j = c then v else board g i j)"
  by (simp add: set_cell_def)

lemma players_set_cell [simp]:
  "computer (set_cell g r c v) = computer g" "human (set_cell g r c v) = human g"
  "turn (set_cell g r c v) = turn g"
  by (simp_all add: set_cell_def)

lemma set_cell_undo:
  "board g r c = Blank \<Longrightarrow> set_cell (set_cell g r c v) r c Blank = g"
  by (simp add: set_cell_def fun_upd_idem)

lemma moves_decrease:
  assumes "mv \<in> set (getAvailableMoves g)"
  shows "length (getAvailableMoves (set_cell g (fst mv) (snd mv) (Mark p)))
           < length (getAvailableMoves g)"
  unfolding getAvailableMoves_filter
proof (rule length_filter_less [where x = mv])
  show "mv \<in> set cells" using assms by (simp add: getAvailableMoves_filter)
  show "board g (fst mv) (snd mv) = Blank" using assms by (rule available_blank)
  show "board (set_cell g (fst mv) (snd mv) (Mark p)) (fst mv) (snd mv) \<noteq> Blank"
    by (simp add: board_set_cell)
  show "board g (fst y) (snd y) = Blank"
    if "board (set_cell g (fst mv) (snd mv) (Mark p)) (fst y) (snd y) = Blank" for y
    using that by (simp add: board_set_cell split: if_splits)
qed

lemma checkFull_iff: "checkFull g \<longleftrightarrow> getAvailableMoves g = []"
  by (simp add: checkFull_def getAvailableMoves_filter cells_def upt_3 filter_empty_conv)

text \<open>
  The value of a position, computed without the shared board: the score of a decided
  position, and otherwise the largest (smallest) value among the positions one move away.
\<close>

function minimax_value :: "game \<Rightarrow> int \<Rightarrow> bool \<Rightarrow> int" where
  "minimax_value g d mx =
     (if getWinner g = Some (Mark (computer g)) then 10 - d
      else if getWinner g = Some (Mark (human g)) then d - 10
      else if checkFull g then 0
      else if mx then
        Max (set (map (\<lambda>mv. minimax_value (set_cell g (fst mv) (snd mv) (Mark (computer g)))
                               (d + 1) False)
                   (getAvailableMoves g)))
      else
        Min (set (map (\<lambda>mv. minimax_value (set_cell g (fst mv) (snd mv) (Mark (human g)))
                               (d + 1) True)
                   (getAvailableMoves g))))"
  by pat_completeness auto
termination
  by (relation "measure (\<lambda>(g, d, mx). length (getAvailableMoves g))")
     (auto intro: moves_decrease)

declare minimax_value.simps [simp del]

lemma search_loop:
  assumes "\<And>mv. mv \<in> set ms \<Longrightarrow> board g (fst mv) (snd mv) = Blank"
    and "\<And>mv. mv \<in> set ms \<Longrightarrow> run (set_cell g (fst mv) (snd mv) (vf g))
            = Some (Fin (f mv), set_cell g (fst mv) (snd mv) (vf g))"
  shows "for_each ms
           (\<lambda>mv st. Option.bind (run (set_cell (snd st) (fst mv) (snd mv) (vf (snd st))))
                       (\<lambda>r. Some (comb (fst r) (fst st), set_cell (snd r) (fst mv) (snd mv) Blank)))
           (acc, g)
         = Some (foldl (\<lambda>a mv. comb (Fin (f mv)) a) acc ms, g)"
  using assms
proof (induction ms arbitrary: acc)
  case Nil
  show ?case by simp
next
  case (Cons m ms)
  have step: "run (set_cell g (fst m) (snd m) (vf g))
                = Some (Fin (f m), set_cell g (fst m) (snd m) (vf g))"
    by (rule Cons.prems(2)) simp
  have undo: "set_cell (set_cell g (fst m) (snd m) (vf g)) (fst m) (snd m) Blank = g"
    by (rule set_cell_undo) (rule Cons.prems(1), simp)
  have rest: "for_each ms
           (\<lambda>mv st. Option.bind (run (set_cell (snd st) (fst mv) (snd mv) (vf (snd st))))
                       (\<lambda>r. Some (comb (fst r) (fst st), set_cell (snd r) (fst mv) (snd mv) Blank)))
           (comb (Fin (f m)) acc, g)
         = Some (foldl (\<lambda>a mv. comb (Fin (f mv)) a) (comb (Fin (f m)) acc) ms, g)"
    by (rule Cons.IH) (simp_all add: Cons.prems)
  show ?case
    by (simp add: step undo rest)
qed

lemma foldl_py_max_Fin:
  "foldl (\<lambda>a mv. py_max (Fin (f mv)) a) (Fin a0) ms = Fin (Max (insert a0 (f ` set ms)))"
proof (induction ms arbitrary: a0)
  case Nil
  show ?case by simp
next
  case (Cons m ms)
  have step: "py_max (Fin (f m)) (Fin a0) = Fin (max a0 (f m))"
    by (simp add: py_max_def max_def)
  have "Max (insert (max a0 (f m)) (f ` set ms)) = Max (insert a0 (insert (f m) (f ` set ms)))"
    by (cases "set ms = {}") (simp_all add: max.assoc)
  then show ?case
    by (simp add: step Cons.IH)
qed

lemma foldl_py_min_Fin:
  "foldl (\<lambda>a mv. py_min (Fin (f mv)) a) (Fin a0) ms = Fin (Min (insert a0 (f ` set ms)))"
proof (induction ms arbitrary: a0)
  case Nil
  show ?case by simp
next
  case (Cons m ms)
  have step: "py_min (Fin (f m)) (Fin a0) = Fin (min a0 (f m))"
    by (simp add: py_min_def min_def)
  have "Min (insert (min a0 (f m)) (f ` set ms)) = Min (insert a0 (insert (f m) (f ` set ms)))"
    by (cases "set ms = {}") (simp_all add: min.assoc)
  then show ?case
    by (simp add: step Cons.IH)
qed

lemma foldl_py_max_NegInf:
  "foldl (\<lambda>a mv. py_max (Fin (f mv)) a) NegInf ms = Fin (Max (f ` set ms))"
  if "ms \<noteq> []"
proof (cases ms)
  case Nil
  then show ?thesis
    using that by simp
next
  case (Cons m ms')
  have "py_max (Fin (f m)) NegInf = Fin (f m)"
    by (simp add: py_max_def)
  then show ?thesis
    by (simp add: Cons foldl_py_max_Fin)
qed

lemma foldl_py_min_PosInf:
  "foldl (\<lambda>a mv. py_min (Fin (f mv)) a) PosInf ms = Fin (Min (f ` set ms))"
  if "ms \<noteq> []"
proof (cases ms)
  case Nil
  then show ?thesis
    using that by simp
next
  case (Cons m ms')
  have "py_min (Fin (f m)) PosInf = Fin (f m)"
    by (simp add: py_min_def)
  then show ?thesis
    by (simp add: Cons foldl_py_min_Fin)
qed

lemma minimax_refines:
  "minimax g d mx = Some (Fin (minimax_value g d mx), g)"
proof (induction g d mx rule: minimax_value.induct)
  case (1 g d mx)
  let ?ms = "getAvailableMoves g"
  show ?case
  proof (cases "getWinner g = Some (Mark (computer g)) \<or> getWinner g = Some (Mark (human g))
                 \<or> checkFull g")
    case True
    then show ?thesis
      by (subst minimax.simps, subst minimax_value.simps) auto
  next
    case False
    then have nw: "getWinner g \<noteq> Some (Mark (computer g))" "getWinner g \<noteq> Some (Mark (human g))"
      and nf: "\<not> checkFull g" by auto
    have ne: "?ms \<noteq> []" using nf by (simp add: checkFull_iff)
    show ?thesis
    proof (cases mx)
      case True
      let ?f = "\<lambda>mv. minimax_value (set_cell g (fst mv) (snd mv) (Mark (computer g))) (d + 1) False"
      have kids: "minimax (set_cell g (fst mv) (snd mv) (Mark (computer g))) (d + 1) False
            = Some (Fin (?f mv), set_cell g (fst mv) (snd mv) (Mark (computer g)))"
        if "mv \<in> set ?ms" for mv
        using "1.IH"(1) [OF nw nf True that] .
      have "for_each ?ms
           (\<lambda>mv st. Option.bind
               (minimax (set_cell (snd st) (fst mv) (snd mv) (Mark (computer (snd st)))) (d + 1) False)
               (\<lambda>r. Some (py_max (fst r) (fst st), set_cell (snd r) (fst mv) (snd mv) Blank)))
           (NegInf, g)
         = Some (foldl (\<lambda>a mv. py_max (Fin (?f mv)) a) NegInf ?ms, g)"
        by (rule search_loop [where run = "\<lambda>s. minimax s (d + 1) False"
              and vf = "\<lambda>s. Mark (computer s)"]) (simp_all add: available_blank kids)
      also have "foldl (\<lambda>a mv. py_max (Fin (?f mv)) a) NegInf ?ms = Fin (Max (?f ` set ?ms))"
        by (rule foldl_py_max_NegInf [OF ne])
      also have "Max (?f ` set ?ms) = minimax_value g d mx"
        by (subst (2) minimax_value.simps) (simp add: nw nf True)
      finally show ?thesis
        by (subst minimax.simps) (simp add: nw nf True)
    next
      case False
      let ?f = "\<lambda>mv. minimax_value (set_cell g (fst mv) (snd mv) (Mark (human g))) (d + 1) True"
      have kids: "minimax (set_cell g (fst mv) (snd mv) (Mark (human g))) (d + 1) True
            = Some (Fin (?f mv), set_cell g (fst mv) (snd mv) (Mark (human g)))"
        if "mv \<in> set ?ms" for mv
        using "1.IH"(2) [OF nw nf False that] .
      have "for_each ?ms
           (\<lambda>mv st. Option.bind
               (minimax (set_cell (snd st) (fst mv) (snd mv) (Mark (human (snd st)))) (d + 1) True)
               (\<lambda>r. Some (py_min (fst r) (fst st), set_cell (snd r) (fst mv) (snd mv) Blank)))
           (PosInf, g)
         = Some (foldl (\<lambda>a mv. py_min (Fin (?f mv)) a) PosInf ?ms, g)"
        by (rule search_loop [where run = "\<lambda>s. minimax s (d + 1) True"
              and vf = "\<lambda>s. Mark (human s)"]) (simp_all add: available_blank kids)
      also have "foldl (\<lambda>a mv. py_min (Fin (?f mv)) a) PosInf ?ms = Fin (Min (?f ` set ?ms))"
        by (rule foldl_py_min_PosInf [OF ne])
      also have "Min (?f ` set ?ms) = minimax_value g d mx"
        by (subst (2) minimax_value.simps) (simp add: nw nf False)
      finally show ?thesis
        by (subst minimax.simps) (simp add: nw nf False)
    qed
  qed
qed

section \<open>What minimax returns\<close>

text \<open>A board written as its three rows, for examples.\<close>

definition grid_of :: "cell list list \<Rightarrow> grid" where
  "grid_of rows = (\<lambda>i j. rows ! i ! j)"

lemma minimax_returns:
  "returned_score (minimax g d mx) = minimax_value g d mx"
  by (simp add: minimax_refines returned_score_def)

lemma winner_is_mark:
  "getWinner g = Some w \<Longrightarrow> w \<noteq> Blank"
  unfolding getWinner_lines line_complete_def cell_at_def
  by (auto split: if_splits)

lemma winner_cases:
  assumes "computer g \<noteq> human g"
  shows "getWinner g = None \<or> getWinner g = Some (Mark (computer g))
           \<or> getWinner g = Some (Mark (human g))"
proof (cases "getWinner g")
  case None
  then show ?thesis by simp
next
  case (Some w)
  then have "w \<noteq> Blank" by (rule winner_is_mark)
  then obtain m where w: "w = Mark m" by (cases w) auto
  have "m = computer g \<or> m = human g"
    using assms by (cases m; cases "computer g"; cases "human g") auto
  then show ?thesis using Some w by auto
qed

text \<open>
  C1. For a game whose computer and human marks differ (\<open>Game.__init__\<close> gives the
  computer the other mark), at every depth and for both values of the flag: \<open>minimax\<close>
  returns \<open>10 - d\<close> when the winner is the computer's mark, \<open>d - 10\<close> when it is the
  human's, and \<open>0\<close> on a full board without a winner; otherwise it returns the maximum
  (maximizing) or the minimum (minimizing) over the available moves of what \<open>minimax\<close>
  returns at depth \<open>d + 1\<close> with the flag flipped on the board with the computer's
  (human's) mark placed there. Every such call returns an integer, and the call returns the
  game with the board as it was given.
\<close>

theorem minimax_cases:
  assumes "computer g \<noteq> human g"
  shows "(getWinner g = Some (Mark (computer g)) \<longrightarrow>
            minimax g d mx = Some (Fin (10 - d), g)) \<and>
         (getWinner g = Some (Mark (human g)) \<longrightarrow>
            minimax g d mx = Some (Fin (d - 10), g)) \<and>
         (getWinner g = None \<and> checkFull g \<longrightarrow>
            minimax g d mx = Some (Fin 0, g)) \<and>
         (getWinner g \<noteq> Some (Mark (computer g)) \<and> getWinner g \<noteq> Some (Mark (human g)) \<and>
          \<not> (getWinner g = None \<and> checkFull g) \<longrightarrow>
            minimax g d True =
              Some (Fin (Max (set (map
                  (\<lambda>mv. returned_score
                     (minimax (set_cell g (fst mv) (snd mv) (Mark (computer g))) (d + 1) False))
                  (getAvailableMoves g)))), g) \<and>
            minimax g d False =
              Some (Fin (Min (set (map
                  (\<lambda>mv. returned_score
                     (minimax (set_cell g (fst mv) (snd mv) (Mark (human g))) (d + 1) True))
                  (getAvailableMoves g)))), g)) \<and>
         (\<forall>mv p d' mx'. \<exists>v.
            minimax (set_cell g (fst mv) (snd mv) (Mark p)) d' mx' =
              Some (Fin v, set_cell g (fst mv) (snd mv) (Mark p)))"
proof (intro conjI impI allI)
  assume "getWinner g = Some (Mark (computer g))"
  then show "minimax g d mx = Some (Fin (10 - d), g)"
    by (subst minimax.simps) simp
next
  assume "getWinner g = Some (Mark (human g))"
  then show "minimax g d mx = Some (Fin (d - 10), g)"
    using assms by (subst minimax.simps) auto
next
  assume "getWinner g = None \<and> checkFull g"
  then show "minimax g d mx = Some (Fin 0, g)"
    by (subst minimax.simps) simp
next
  assume a: "getWinner g \<noteq> Some (Mark (computer g)) \<and> getWinner g \<noteq> Some (Mark (human g)) \<and>
          \<not> (getWinner g = None \<and> checkFull g)"
  then have nf: "\<not> checkFull g"
    using winner_cases [OF assms] by auto
  have "minimax_value g d True =
          Max (set (map (\<lambda>mv. minimax_value (set_cell g (fst mv) (snd mv) (Mark (computer g)))
                                 (d + 1) False) (getAvailableMoves g)))"
    by (subst minimax_value.simps) (simp add: a nf)
  then show "minimax g d True =
              Some (Fin (Max (set (map
                  (\<lambda>mv. returned_score
                     (minimax (set_cell g (fst mv) (snd mv) (Mark (computer g))) (d + 1) False))
                  (getAvailableMoves g)))), g)"
    by (simp add: minimax_refines returned_score_def)
  have "minimax_value g d False =
          Min (set (map (\<lambda>mv. minimax_value (set_cell g (fst mv) (snd mv) (Mark (human g)))
                                 (d + 1) True) (getAvailableMoves g)))"
    by (subst minimax_value.simps) (simp add: a nf)
  then show "minimax g d False =
              Some (Fin (Min (set (map
                  (\<lambda>mv. returned_score
                     (minimax (set_cell g (fst mv) (snd mv) (Mark (human g))) (d + 1) True))
                  (getAvailableMoves g)))), g)"
    by (simp add: minimax_refines returned_score_def)
next
  fix mv p d' mx'
  show "\<exists>v. minimax (set_cell g (fst mv) (snd mv) (Mark p)) d' mx' =
              Some (Fin v, set_cell g (fst mv) (snd mv) (Mark p))"
    by (simp add: minimax_refines)
qed

text \<open>An example: one blank cell left, the computer plays \<open>"X"\<close>.\<close>

definition example_board :: grid where
  "example_board = grid_of
     [[Mark Cross, Mark Nought, Mark Cross],
      [Mark Cross, Mark Nought, Mark Nought],
      [Mark Nought, Mark Cross, Blank]]"

definition example_game :: game where
  "example_game = \<lparr>board = example_board, turn = Cross, human = Nought, computer = Cross\<rparr>"

lemma example_cell:
  "board example_game i j =
     [[Mark Cross, Mark Nought, Mark Cross],
      [Mark Cross, Mark Nought, Mark Nought],
      [Mark Nought, Mark Cross, Blank]] ! i ! j"
  by (simp add: example_game_def example_board_def grid_of_def)

lemma example_players:
  "computer example_game = Cross" "human example_game = Nought"
  by (simp_all add: example_game_def)

lemma example_moves: "getAvailableMoves example_game = [(2, 2)]"
  by (simp add: getAvailableMoves_filter cells_def example_cell)

lemma example_winner: "getWinner example_game = None"
  by (simp add: getWinner_lines line_complete_def cell_at_def example_cell)

lemma example_open: "\<not> checkFull example_game"
  by (simp add: checkFull_iff example_moves)

lemma example_child_winner:
  "getWinner (set_cell example_game 2 2 (Mark Cross)) = None"
  by (simp add: getWinner_lines line_complete_def cell_at_def board_set_cell example_cell)

lemma example_child_full:
  "checkFull (set_cell example_game 2 2 (Mark Cross))"
  by (simp add: checkFull_iff getAvailableMoves_filter cells_def board_set_cell example_cell)

theorem minimax_cases_witness:
  "computer example_game \<noteq> human example_game \<and>
   getWinner example_game = None \<and> \<not> checkFull example_game \<and>
   minimax (set_cell example_game 2 2 (Mark Cross)) 1 False =
     Some (Fin 0, set_cell example_game 2 2 (Mark Cross)) \<and>
   minimax example_game 0 True = Some (Fin 0, example_game)"
proof -
  have ne: "computer example_game \<noteq> human example_game"
    by (simp add: example_players)
  have ne': "computer (set_cell example_game 2 2 (Mark Cross))
               \<noteq> human (set_cell example_game 2 2 (Mark Cross))"
    by (simp add: example_players)
  note kid = minimax_cases [OF ne', of 1 False, THEN conjunct2, THEN conjunct2, THEN conjunct1]
  have child: "minimax (set_cell example_game 2 2 (Mark Cross)) 1 False =
     Some (Fin 0, set_cell example_game 2 2 (Mark Cross))"
    by (rule kid [THEN mp]) (simp add: example_child_winner example_child_full)
  note top = minimax_cases [OF ne, of 0 True, THEN conjunct2, THEN conjunct2, THEN conjunct2,
      THEN conjunct1, THEN mp, THEN conjunct1]
  have "minimax example_game 0 True =
          Some (Fin (Max (set (map
                  (\<lambda>mv. returned_score
                     (minimax (set_cell example_game (fst mv) (snd mv) (Mark (computer example_game)))
                        (0 + 1) False))
                  (getAvailableMoves example_game)))), example_game)"
    by (rule top) (simp add: example_winner example_open)
  then have "minimax example_game 0 True = Some (Fin 0, example_game)"
    by (simp add: example_moves example_players child returned_score_def)
  then show ?thesis
    using ne child by (simp add: example_winner example_open)
qed

section \<open>The best move\<close>

text \<open>One iteration of the loop of \<open>getBestMove\<close> on \<open>best_score\<close> and \<open>best_move\<close>.\<close>

definition pick :: "('a \<Rightarrow> int) \<Rightarrow> score \<times> 'a option \<Rightarrow> 'a \<Rightarrow> score \<times> 'a option" where
  "pick f st mv = (if score_less (fst st) (Fin (f mv)) then (Fin (f mv), Some mv) else st)"

lemma pick_step:
  "pick f (bs, bm) m = (if score_less bs (Fin (f m)) then (Fin (f m), Some m) else (bs, bm))"
  by (simp add: pick_def)

lemma best_loop:
  assumes "\<And>mv. mv \<in> set ms \<Longrightarrow> board g (fst mv) (snd mv) = Blank"
    and "\<And>mv. mv \<in> set ms \<Longrightarrow> run (set_cell g (fst mv) (snd mv) (vf g))
            = Some (Fin (f mv), set_cell g (fst mv) (snd mv) (vf g))"
  shows "for_each ms
           (\<lambda>mv st. Option.bind (run (set_cell (snd (snd st)) (fst mv) (snd mv) (vf (snd (snd st)))))
              (\<lambda>r. let s = set_cell (snd r) (fst mv) (snd mv) Blank in
                    if score_less (fst st) (fst r) then Some (fst r, Some mv, s)
                    else Some (fst st, fst (snd st), s)))
           (bs, bm, g)
         = Some (fst (foldl (pick f) (bs, bm) ms), snd (foldl (pick f) (bs, bm) ms), g)"
  using assms
proof (induction ms arbitrary: bs bm)
  case Nil
  show ?case by simp
next
  case (Cons m ms)
  have step: "run (set_cell g (fst m) (snd m) (vf g))
                = Some (Fin (f m), set_cell g (fst m) (snd m) (vf g))"
    by (rule Cons.prems(2)) simp
  have undo: "set_cell (set_cell g (fst m) (snd m) (vf g)) (fst m) (snd m) Blank = g"
    by (rule set_cell_undo) (rule Cons.prems(1), simp)
  have rest: "for_each ms
           (\<lambda>mv st. Option.bind (run (set_cell (snd (snd st)) (fst mv) (snd mv) (vf (snd (snd st)))))
              (\<lambda>r. let s = set_cell (snd r) (fst mv) (snd mv) Blank in
                    if score_less (fst st) (fst r) then Some (fst r, Some mv, s)
                    else Some (fst st, fst (snd st), s)))
           (bs', bm', g)
         = Some (fst (foldl (pick f) (bs', bm') ms), snd (foldl (pick f) (bs', bm') ms), g)"
    for bs' bm'
    by (rule Cons.IH) (simp_all add: Cons.prems)
  show ?case
    by (simp add: step undo rest pick_step)
qed

lemma getBestMove_pick:
  "getBestMove g =
     Some (snd (foldl (pick (\<lambda>mv. minimax_value (set_cell g (fst mv) (snd mv) (Mark (computer g))) 0 False))
                  (NegInf, None) (getAvailableMoves g)), g)"
proof -
  let ?f = "\<lambda>mv. minimax_value (set_cell g (fst mv) (snd mv) (Mark (computer g))) 0 False"
  have "for_each (getAvailableMoves g)
          (\<lambda>mv st.
             Option.bind
               (minimax (set_cell (snd (snd st)) (fst mv) (snd mv)
                           (Mark (computer (snd (snd st))))) 0 False)
               (\<lambda>r. let s = set_cell (snd r) (fst mv) (snd mv) Blank in
                     if score_less (fst st) (fst r) then Some (fst r, Some mv, s)
                     else Some (fst st, fst (snd st), s)))
          (NegInf, None, g)
        = Some (fst (foldl (pick ?f) (NegInf, None) (getAvailableMoves g)),
                snd (foldl (pick ?f) (NegInf, None) (getAvailableMoves g)), g)"
    by (rule best_loop [where run = "\<lambda>s. minimax s 0 False" and vf = "\<lambda>s. Mark (computer s)"])
       (simp_all add: available_blank minimax_refines)
  then show ?thesis
    by (simp add: getBestMove_def)
qed

lemma pick_first_max:
  assumes "ms \<noteq> []"
  shows "\<exists>k < length ms.
           foldl (pick f) (NegInf, None) ms = (Fin (f (ms ! k)), Some (ms ! k)) \<and>
           (\<forall>j < length ms. f (ms ! j) \<le> f (ms ! k)) \<and>
           (\<forall>j < k. f (ms ! j) < f (ms ! k))"
  using assms
proof (induction ms rule: rev_induct)
  case Nil
  then show ?case by simp
next
  case (snoc x xs)
  show ?case
  proof (cases "xs = []")
    case True
    then show ?thesis by (simp add: pick_def)
  next
    case False
    from snoc.IH [OF False] obtain k where k: "k < length xs"
      and res: "foldl (pick f) (NegInf, None) xs = (Fin (f (xs ! k)), Some (xs ! k))"
      and mx: "\<forall>j < length xs. f (xs ! j) \<le> f (xs ! k)"
      and fst: "\<forall>j < k. f (xs ! j) < f (xs ! k)"
      by blast
    show ?thesis
    proof (cases "f (xs ! k) < f x")
      case True
      have "foldl (pick f) (NegInf, None) (xs @ [x]) = (Fin (f x), Some x)"
        using True by (simp add: res pick_def)
      moreover have below: "f (xs ! j) < f x" if "j < length xs" for j
        using mx that True by fastforce
      moreover have "\<forall>j < length (xs @ [x]). f ((xs @ [x]) ! j) \<le> f x"
        using below by (auto simp: nth_append less_Suc_eq order_less_imp_le)
      moreover have "\<forall>j < length xs. f ((xs @ [x]) ! j) < f x"
        using below by (simp add: nth_append)
      ultimately show ?thesis
        by (intro exI [of _ "length xs"]) simp
    next
      case False
      have "foldl (pick f) (NegInf, None) (xs @ [x]) = (Fin (f (xs ! k)), Some (xs ! k))"
        using False by (simp add: res pick_def)
      moreover have "\<forall>j < length (xs @ [x]). f ((xs @ [x]) ! j) \<le> f (xs ! k)"
        using mx False by (auto simp: nth_append less_Suc_eq)
      moreover have "\<forall>j < k. f ((xs @ [x]) ! j) < f (xs ! k)"
        using fst k by (auto simp: nth_append)
      ultimately show ?thesis
        using k by (intro exI [of _ k]) (simp add: nth_append)
    qed
  qed
qed

text \<open>
  C2. On a board with an empty cell, \<open>getBestMove\<close> returns an available move whose
  score (\<open>minimax\<close> at depth 0, not maximizing, after the computer's mark is placed on
  it) is the largest among the available moves, and every move before it in the row-major
  list has a strictly smaller score.
\<close>

theorem getBestMove_first_maximal:
  assumes "\<not> checkFull g"
  shows "\<exists>k < length (getAvailableMoves g).
           getBestMove g = Some (Some (getAvailableMoves g ! k), g) \<and>
           (\<forall>j < length (getAvailableMoves g).
              returned_score (minimax (set_cell g (fst (getAvailableMoves g ! j))
                  (snd (getAvailableMoves g ! j)) (Mark (computer g))) 0 False)
              \<le> returned_score (minimax (set_cell g (fst (getAvailableMoves g ! k))
                  (snd (getAvailableMoves g ! k)) (Mark (computer g))) 0 False)) \<and>
           (\<forall>j < k.
              returned_score (minimax (set_cell g (fst (getAvailableMoves g ! j))
                  (snd (getAvailableMoves g ! j)) (Mark (computer g))) 0 False)
              < returned_score (minimax (set_cell g (fst (getAvailableMoves g ! k))
                  (snd (getAvailableMoves g ! k)) (Mark (computer g))) 0 False))"
proof -
  let ?f = "\<lambda>mv. minimax_value (set_cell g (fst mv) (snd mv) (Mark (computer g))) 0 False"
  have ne: "getAvailableMoves g \<noteq> []"
    using assms by (simp add: checkFull_iff)
  from pick_first_max [OF ne, of ?f] obtain k where k: "k < length (getAvailableMoves g)"
    and res: "foldl (pick ?f) (NegInf, None) (getAvailableMoves g)
                = (Fin (?f (getAvailableMoves g ! k)), Some (getAvailableMoves g ! k))"
    and mx: "\<forall>j < length (getAvailableMoves g). ?f (getAvailableMoves g ! j) \<le> ?f (getAvailableMoves g ! k)"
    and fst: "\<forall>j < k. ?f (getAvailableMoves g ! j) < ?f (getAvailableMoves g ! k)"
    by blast
  have "getBestMove g = Some (Some (getAvailableMoves g ! k), g)"
    by (simp add: getBestMove_pick res)
  then show ?thesis
    using k mx fst unfolding minimax_returns by blast
qed

theorem getBestMove_first_maximal_witness:
  "\<not> checkFull example_game \<and> getBestMove example_game = Some (Some (2, 2), example_game)"
proof -
  from getBestMove_first_maximal [OF example_open]
  obtain k where "k < length (getAvailableMoves example_game)"
    and "getBestMove example_game = Some (Some (getAvailableMoves example_game ! k), example_game)"
    by blast
  then have "getBestMove example_game = Some (Some (2, 2), example_game)"
    by (simp add: example_moves)
  then show ?thesis
    using example_open by simp
qed

text \<open>
  C9. \<open>minimax\<close> and \<open>getBestMove\<close> return the game with the board they were given.
\<close>

theorem search_restores_board:
  "(\<exists>v. minimax g d mx = Some (v, g)) \<and> (\<exists>m. getBestMove g = Some (m, g))"
  by (simp add: minimax_refines getBestMove_pick)

theorem search_restores_board_witness:
  "(\<exists>v. minimax example_game 0 True = Some (v, example_game)) \<and>
   (\<exists>m. getBestMove example_game = Some (m, example_game))"
  by (rule search_restores_board)

section \<open>Minimax against minimax\<close>

subsection \<open>Positions as lists of nine cells\<close>

definition cells9 :: "game \<Rightarrow> cell list" where
  "cells9 g = map (cell_at g) cells"

fun line3 :: "cell \<Rightarrow> cell \<Rightarrow> cell \<Rightarrow> bool" where
  "line3 (Mark m) (Mark n) (Mark k) = (m = n \<and> n = k)"
| "line3 a b c = False"

fun winner9 :: "cell list \<Rightarrow> cell option" where
  "winner9 [a, b, c, d, e, f, g, h, i] =
     (if line3 a b c then Some a
      else if line3 d e f then Some d
      else if line3 g h i then Some g
      else if line3 a d g then Some a
      else if line3 b e h then Some b
      else if line3 c f i then Some c
      else if line3 a e i then Some a
      else if line3 c e g then Some c
      else None)"
| "winner9 b = None"

fun kid :: "cell \<Rightarrow> 'a \<Rightarrow> 'a list" where
  "kid Blank b = [b]"
| "kid (Mark m) b = []"

text \<open>The positions one move away, centre first, then corners, then edges.\<close>

fun kids9 :: "cell \<Rightarrow> cell list \<Rightarrow> cell list list" where
  "kids9 v [a, b, c, d, e, f, g, h, i] =
     kid e [a, b, c, d, v, f, g, h, i] @ kid a [v, b, c, d, e, f, g, h, i] @
     kid i [a, b, c, d, e, f, g, h, v] @ kid c [a, b, v, d, e, f, g, h, i] @
     kid g [a, b, c, d, e, f, v, h, i] @ kid b [a, v, c, d, e, f, g, h, i] @
     kid h [a, b, c, d, e, f, g, v, i] @ kid d [a, b, c, v, e, f, g, h, i] @
     kid f [a, b, c, d, e, v, g, h, i]"
| "kids9 v b = []"

fun all_lazy :: "('a \<Rightarrow> bool) \<Rightarrow> 'a list \<Rightarrow> bool" where
  "all_lazy P [] = True"
| "all_lazy P (x # xs) = (if P x then all_lazy P xs else False)"

fun ex_lazy :: "('a \<Rightarrow> bool) \<Rightarrow> 'a list \<Rightarrow> bool" where
  "ex_lazy P [] = False"
| "ex_lazy P (x # xs) = (if P x then True else ex_lazy P xs)"

lemma all_lazy_iff: "all_lazy P xs \<longleftrightarrow> (\<forall>x \<in> set xs. P x)"
  by (induction xs) auto

lemma ex_lazy_iff: "ex_lazy P xs \<longleftrightarrow> (\<exists>x \<in> set xs. P x)"
  by (induction xs) auto

lemma all_lazy_cong [fundef_cong]:
  "xs = ys \<Longrightarrow> (\<And>x. x \<in> set ys \<Longrightarrow> P x = Q x) \<Longrightarrow> all_lazy P xs = all_lazy Q ys"
  by (simp add: all_lazy_iff)

lemma ex_lazy_cong [fundef_cong]:
  "xs = ys \<Longrightarrow> (\<And>x. x \<in> set ys \<Longrightarrow> P x = Q x) \<Longrightarrow> ex_lazy P xs = ex_lazy Q ys"
  by (simp add: ex_lazy_iff)

fun blank01 :: "cell \<Rightarrow> nat" where
  "blank01 Blank = 1"
| "blank01 (Mark m) = 0"

definition blanks :: "cell list \<Rightarrow> nat" where
  "blanks b = sum_list (map blank01 b)"

lemma kid_set: "c \<in> set (kid x b) \<longleftrightarrow> x = Blank \<and> c = b"
  by (cases x) auto

lemma kids9_blanks:
  "c \<in> set (kids9 (Mark p) b) \<Longrightarrow> blanks c < blanks b"
  by (cases "(Mark p, b)" rule: kids9.cases) (auto simp: kid_set blanks_def)

lemma kids9_blanks_Cons:
  "kids9 (Mark p) b = c # cs \<Longrightarrow> x = c \<or> x \<in> set cs \<Longrightarrow> blanks x < blanks b"
  using kids9_blanks [of x p b] by auto

text \<open>
  Two checks that decide, without visiting the whole tree, that the value of a position is
  at most (at least) a bound: at a node where one move suffices they stop at the first
  move that passes.
\<close>

function le_chk :: "mark \<Rightarrow> mark \<Rightarrow> cell list \<Rightarrow> int \<Rightarrow> bool \<Rightarrow> int \<Rightarrow> bool" where
  "le_chk cm hm b d mx k =
     (case winner9 b of
        Some w \<Rightarrow> (if w = Mark cm then 10 - d \<le> k else (w = Mark hm \<and> d - 10 \<le> k))
      | None \<Rightarrow>
          (if mx then
             (case kids9 (Mark cm) b of
                [] \<Rightarrow> 0 \<le> k
              | c # cs \<Rightarrow> all_lazy (\<lambda>c. le_chk cm hm c (d + 1) False k) (c # cs))
           else
             (case kids9 (Mark hm) b of
                [] \<Rightarrow> 0 \<le> k
              | c # cs \<Rightarrow> ex_lazy (\<lambda>c. le_chk cm hm c (d + 1) True k) (c # cs))))"
  by pat_completeness auto
termination
  by (relation "measure (\<lambda>(cm, hm, b, d, mx, k). blanks b)")
     (auto elim: kids9_blanks_Cons simp del: kids9.simps)

function ge_chk :: "mark \<Rightarrow> mark \<Rightarrow> cell list \<Rightarrow> int \<Rightarrow> bool \<Rightarrow> int \<Rightarrow> bool" where
  "ge_chk cm hm b d mx k =
     (case winner9 b of
        Some w \<Rightarrow> (if w = Mark cm then k \<le> 10 - d else (w = Mark hm \<and> k \<le> d - 10))
      | None \<Rightarrow>
          (if mx then
             (case kids9 (Mark cm) b of
                [] \<Rightarrow> k \<le> 0
              | c # cs \<Rightarrow> ex_lazy (\<lambda>c. ge_chk cm hm c (d + 1) False k) (c # cs))
           else
             (case kids9 (Mark hm) b of
                [] \<Rightarrow> k \<le> 0
              | c # cs \<Rightarrow> all_lazy (\<lambda>c. ge_chk cm hm c (d + 1) True k) (c # cs))))"
  by pat_completeness auto
termination
  by (relation "measure (\<lambda>(cm, hm, b, d, mx, k). blanks b)")
     (auto elim: kids9_blanks_Cons simp del: kids9.simps)

declare le_chk.simps [simp del] ge_chk.simps [simp del]

lemmas chk_eval =
  le_chk.simps ge_chk.simps winner9.simps line3.simps kid.simps kids9.simps
  all_lazy.simps ex_lazy.simps append.simps
  cell.simps mark.simps option.simps list.simps simp_thms if_True if_False
  arith_simps rel_simps numeral_plus_one one_plus_numeral one_add_one add_0 add_0_right
  diff_numeral_special

lemma line3_iff: "line3 a b c \<longleftrightarrow> a = b \<and> b = c \<and> a \<noteq> Blank"
  by (cases a; cases b; cases c) auto

lemma cells9_explicit:
  "cells9 g = [board g 0 0, board g 0 1, board g 0 2, board g 1 0, board g 1 1, board g 1 2,
               board g 2 0, board g 2 1, board g 2 2]"
  by (simp add: cells9_def cells_def cell_at_def)

lemma winner9_cells9: "winner9 (cells9 g) = getWinner g"
  unfolding cells9_explicit winner9.simps getWinner_lines line3_iff line_complete_def cell_at_def
    fst_conv snd_conv
  by (rule refl)

lemma in_kids9:
  "x \<in> set (kids9 v [a, b, c, d, e, f, g, h, i]) \<longleftrightarrow>
     (e = Blank \<and> x = [a, b, c, d, v, f, g, h, i]) \<or>
     (a = Blank \<and> x = [v, b, c, d, e, f, g, h, i]) \<or>
     (i = Blank \<and> x = [a, b, c, d, e, f, g, h, v]) \<or>
     (c = Blank \<and> x = [a, b, v, d, e, f, g, h, i]) \<or>
     (g = Blank \<and> x = [a, b, c, d, e, f, v, h, i]) \<or>
     (b = Blank \<and> x = [a, v, c, d, e, f, g, h, i]) \<or>
     (h = Blank \<and> x = [a, b, c, d, e, f, g, v, i]) \<or>
     (d = Blank \<and> x = [a, b, c, v, e, f, g, h, i]) \<or>
     (f = Blank \<and> x = [a, b, c, d, e, v, g, h, i])"
  by (simp only: kids9.simps set_append Un_iff kid_set)

lemma cells9_set_cell:
  "cells9 (set_cell g 0 0 v) = [v, board g 0 1, board g 0 2, board g 1 0, board g 1 1, board g 1 2,
               board g 2 0, board g 2 1, board g 2 2]"
  "cells9 (set_cell g 0 1 v) = [board g 0 0, v, board g 0 2, board g 1 0, board g 1 1, board g 1 2,
               board g 2 0, board g 2 1, board g 2 2]"
  "cells9 (set_cell g 0 2 v) = [board g 0 0, board g 0 1, v, board g 1 0, board g 1 1, board g 1 2,
               board g 2 0, board g 2 1, board g 2 2]"
  "cells9 (set_cell g 1 0 v) = [board g 0 0, board g 0 1, board g 0 2, v, board g 1 1, board g 1 2,
               board g 2 0, board g 2 1, board g 2 2]"
  "cells9 (set_cell g 1 1 v) = [board g 0 0, board g 0 1, board g 0 2, board g 1 0, v, board g 1 2,
               board g 2 0, board g 2 1, board g 2 2]"
  "cells9 (set_cell g 1 2 v) = [board g 0 0, board g 0 1, board g 0 2, board g 1 0, board g 1 1, v,
               board g 2 0, board g 2 1, board g 2 2]"
  "cells9 (set_cell g 2 0 v) = [board g 0 0, board g 0 1, board g 0 2, board g 1 0, board g 1 1,
               board g 1 2, v, board g 2 1, board g 2 2]"
  "cells9 (set_cell g 2 1 v) = [board g 0 0, board g 0 1, board g 0 2, board g 1 0, board g 1 1,
               board g 1 2, board g 2 0, v, board g 2 2]"
  "cells9 (set_cell g 2 2 v) = [board g 0 0, board g 0 1, board g 0 2, board g 1 0, board g 1 1,
               board g 1 2, board g 2 0, board g 2 1, v]"
  by (simp_all add: cells9_explicit board_set_cell)

lemma available_iff:
  "mv \<in> set (getAvailableMoves g) \<longleftrightarrow> mv \<in> set cells \<and> board g (fst mv) (snd mv) = Blank"
  by (simp add: getAvailableMoves_filter)

lemma in_cells:
  "mv \<in> set cells \<longleftrightarrow>
     mv = (0, 0) \<or> mv = (0, 1) \<or> mv = (0, 2) \<or> mv = (1, 0) \<or> mv = (1, 1) \<or> mv = (1, 2) \<or>
     mv = (2, 0) \<or> mv = (2, 1) \<or> mv = (2, 2)"
  by (simp add: cells_def)

lemma kid_into:
  assumes "mv \<in> set (getAvailableMoves g)"
  shows "cells9 (set_cell g (fst mv) (snd mv) v) \<in> set (kids9 v (cells9 g))"
proof -
  have b: "board g (fst mv) (snd mv) = Blank" and c: "mv \<in> set cells"
    using assms by (simp_all add: available_iff)
  show ?thesis
    using b c unfolding in_cells
    by (elim disjE; simp only: fst_conv snd_conv cells9_set_cell;
        simp only: cells9_explicit in_kids9 simp_thms)
qed

lemma kid_fromI:
  "board g r c = Blank \<Longrightarrow> (r, c) \<in> set cells \<Longrightarrow> x = cells9 (set_cell g r c v) \<Longrightarrow>
     \<exists>mv \<in> set (getAvailableMoves g). x = cells9 (set_cell g (fst mv) (snd mv) v)"
  by (rule bexI [of _ "(r, c)"]) (simp_all add: available_iff)

lemma kid_from:
  assumes "x \<in> set (kids9 v (cells9 g))"
  shows "\<exists>mv \<in> set (getAvailableMoves g). x = cells9 (set_cell g (fst mv) (snd mv) v)"
  by (insert assms [unfolded cells9_explicit in_kids9], elim disjE conjE;
      (rule kid_fromI, assumption, simp add: cells_def, simp only: cells9_set_cell simp_thms))

lemma kids9_empty_iff: "kids9 v (cells9 g) = [] \<longleftrightarrow> checkFull g"
proof
  assume e: "kids9 v (cells9 g) = []"
  show "checkFull g"
  proof (rule ccontr)
    assume "\<not> checkFull g"
    then have "hd (getAvailableMoves g) \<in> set (getAvailableMoves g)"
      by (simp add: checkFull_iff)
    from kid_into [OF this, of v] show False
      by (simp add: e)
  qed
next
  assume f: "checkFull g"
  show "kids9 v (cells9 g) = []"
  proof (rule ccontr)
    assume "kids9 v (cells9 g) \<noteq> []"
    then have "hd (kids9 v (cells9 g)) \<in> set (kids9 v (cells9 g))"
      by simp
    from kid_from [OF this] show False
      using f by (simp add: checkFull_iff)
  qed
qed

lemma lazy_kids:
  "(case ks of [] \<Rightarrow> z | c # cs \<Rightarrow> all_lazy P (c # cs)) = (if ks = [] then z else \<forall>c \<in> set ks. P c)"
  "(case ks of [] \<Rightarrow> z | c # cs \<Rightarrow> ex_lazy P (c # cs)) = (if ks = [] then z else \<exists>c \<in> set ks. P c)"
  by (cases ks; simp add: all_lazy_iff ex_lazy_iff)+

lemma le_chk_unfold:
  "le_chk (computer g) (human g) (cells9 g) d mx k =
     (case getWinner g of
        Some w \<Rightarrow> (if w = Mark (computer g) then 10 - d \<le> k
                   else (w = Mark (human g) \<and> d - 10 \<le> k))
      | None \<Rightarrow>
          (if checkFull g then 0 \<le> k
           else if mx then
             (\<forall>c \<in> set (kids9 (Mark (computer g)) (cells9 g)).
                 le_chk (computer g) (human g) c (d + 1) False k)
           else
             (\<exists>c \<in> set (kids9 (Mark (human g)) (cells9 g)).
                 le_chk (computer g) (human g) c (d + 1) True k)))"
  by (subst le_chk.simps) (simp add: winner9_cells9 lazy_kids kids9_empty_iff split: option.split)

lemma ge_chk_unfold:
  "ge_chk (computer g) (human g) (cells9 g) d mx k =
     (case getWinner g of
        Some w \<Rightarrow> (if w = Mark (computer g) then k \<le> 10 - d
                   else (w = Mark (human g) \<and> k \<le> d - 10))
      | None \<Rightarrow>
          (if checkFull g then k \<le> 0
           else if mx then
             (\<exists>c \<in> set (kids9 (Mark (computer g)) (cells9 g)).
                 ge_chk (computer g) (human g) c (d + 1) False k)
           else
             (\<forall>c \<in> set (kids9 (Mark (human g)) (cells9 g)).
                 ge_chk (computer g) (human g) c (d + 1) True k)))"
  by (subst ge_chk.simps) (simp add: winner9_cells9 lazy_kids kids9_empty_iff split: option.split)

lemma le_chk_sound:
  "le_chk (computer g) (human g) (cells9 g) d mx k \<Longrightarrow> minimax_value g d mx \<le> k"
proof (induction g d mx rule: minimax_value.induct)
  case (1 g d mx)
  note chk = "1.prems" [unfolded le_chk_unfold]
  let ?ms = "getAvailableMoves g"
  show ?case
  proof (cases "getWinner g")
    case (Some w)
    then show ?thesis
      using chk by (subst minimax_value.simps) (auto split: if_splits)
  next
    case None
    show ?thesis
    proof (cases "checkFull g")
      case True
      then show ?thesis
        using chk None by (subst minimax_value.simps) simp
    next
      case False
      then have ne: "?ms \<noteq> []" by (simp add: checkFull_iff)
      have nw: "getWinner g \<noteq> Some (Mark (computer g))" "getWinner g \<noteq> Some (Mark (human g))"
        using None by simp_all
      show ?thesis
      proof (cases mx)
        case True
        have "minimax_value (set_cell g (fst mv) (snd mv) (Mark (computer g))) (d + 1) False \<le> k"
          if "mv \<in> set ?ms" for mv
        proof (rule "1.IH"(1) [OF nw False True that])
          show "le_chk (computer (set_cell g (fst mv) (snd mv) (Mark (computer g))))
                  (human (set_cell g (fst mv) (snd mv) (Mark (computer g))))
                  (cells9 (set_cell g (fst mv) (snd mv) (Mark (computer g)))) (d + 1) False k"
            using chk None False True kid_into [OF that, of "Mark (computer g)"] by simp
        qed
        then show ?thesis
          using ne by (subst minimax_value.simps) (simp add: nw False True)
      next
        case mn: False
        from chk None False mn obtain c where c: "c \<in> set (kids9 (Mark (human g)) (cells9 g))"
          and cc: "le_chk (computer g) (human g) c (d + 1) True k"
          by auto
        from kid_from [OF c] obtain mv where mv: "mv \<in> set ?ms"
          and ceq: "c = cells9 (set_cell g (fst mv) (snd mv) (Mark (human g)))"
          by blast
        have "minimax_value (set_cell g (fst mv) (snd mv) (Mark (human g))) (d + 1) True \<le> k"
          by (rule "1.IH"(2) [OF nw False mn mv]) (use cc ceq in simp)
        moreover have "minimax_value g d mx
              \<le> minimax_value (set_cell g (fst mv) (snd mv) (Mark (human g))) (d + 1) True"
          using mv by (subst minimax_value.simps) (simp add: nw False mn)
        ultimately show ?thesis by simp
      qed
    qed
  qed
qed

lemma ge_chk_sound:
  "ge_chk (computer g) (human g) (cells9 g) d mx k \<Longrightarrow> k \<le> minimax_value g d mx"
proof (induction g d mx rule: minimax_value.induct)
  case (1 g d mx)
  note chk = "1.prems" [unfolded ge_chk_unfold]
  let ?ms = "getAvailableMoves g"
  show ?case
  proof (cases "getWinner g")
    case (Some w)
    then show ?thesis
      using chk by (subst minimax_value.simps) (auto split: if_splits)
  next
    case None
    show ?thesis
    proof (cases "checkFull g")
      case True
      then show ?thesis
        using chk None by (subst minimax_value.simps) simp
    next
      case False
      then have ne: "?ms \<noteq> []" by (simp add: checkFull_iff)
      have nw: "getWinner g \<noteq> Some (Mark (computer g))" "getWinner g \<noteq> Some (Mark (human g))"
        using None by simp_all
      show ?thesis
      proof (cases mx)
        case mn: False
        have "k \<le> minimax_value (set_cell g (fst mv) (snd mv) (Mark (human g))) (d + 1) True"
          if "mv \<in> set ?ms" for mv
        proof (rule "1.IH"(2) [OF nw False mn that])
          show "ge_chk (computer (set_cell g (fst mv) (snd mv) (Mark (human g))))
                  (human (set_cell g (fst mv) (snd mv) (Mark (human g))))
                  (cells9 (set_cell g (fst mv) (snd mv) (Mark (human g)))) (d + 1) True k"
            using chk None False mn kid_into [OF that, of "Mark (human g)"] by simp
        qed
        then show ?thesis
          using ne by (subst minimax_value.simps) (simp add: nw False mn)
      next
        case True
        from chk None False True obtain c where c: "c \<in> set (kids9 (Mark (computer g)) (cells9 g))"
          and cc: "ge_chk (computer g) (human g) c (d + 1) False k"
          by auto
        from kid_from [OF c] obtain mv where mv: "mv \<in> set ?ms"
          and ceq: "c = cells9 (set_cell g (fst mv) (snd mv) (Mark (computer g)))"
          by blast
        have "k \<le> minimax_value (set_cell g (fst mv) (snd mv) (Mark (computer g))) (d + 1) False"
          by (rule "1.IH"(1) [OF nw False True mv]) (use cc ceq in simp)
        moreover have "minimax_value (set_cell g (fst mv) (snd mv) (Mark (computer g))) (d + 1) False
              \<le> minimax_value g d mx"
          using mv by (subst minimax_value.simps) (simp add: nw False True)
        ultimately show ?thesis by simp
      qed
    qed
  qed
qed

lemma list_moves:
  "getAvailableMoves g =
     kid (board g 0 0) (0, 0) @ kid (board g 0 1) (0, 1) @ kid (board g 0 2) (0, 2) @
     kid (board g 1 0) (1, 0) @ kid (board g 1 1) (1, 1) @ kid (board g 1 2) (1, 2) @
     kid (board g 2 0) (2, 0) @ kid (board g 2 1) (2, 1) @ kid (board g 2 2) (2, 2)"
proof -
  have k: "(if x = Blank then [p] else []) = kid x p" for x :: cell and p :: "nat \<times> nat"
    by (cases x) simp_all
  show ?thesis
    unfolding getAvailableMoves_def upt_3
    by (simp only: list.map concat.simps append.simps append_Nil2 k append_assoc)
qed

lemma cells9_board:
  assumes "cells9 g = [a, b, c, d, e, f, g', h, i]"
  shows "board g 0 0 = a" "board g 0 1 = b" "board g 0 2 = c"
    "board g 1 0 = d" "board g 1 1 = e" "board g 1 2 = f"
    "board g 2 0 = g'" "board g 2 1 = h" "board g 2 2 = i"
  using assms unfolding cells9_explicit by (simp_all only: list.inject)

lemma moves_of_cells9:
  assumes "cells9 g = [a, b, c, d, e, f, g', h, i]"
  shows "getAvailableMoves g =
     kid a (0, 0) @ kid b (0, 1) @ kid c (0, 2) @ kid d (1, 0) @ kid e (1, 1) @ kid f (1, 2) @
     kid g' (2, 0) @ kid h (2, 1) @ kid i (2, 2)"
  unfolding list_moves cells9_board [OF assms] by (rule refl)

lemma cells9_set_cell_list:
  assumes "cells9 g = [a, b, c, d, e, f, g', h, i]"
  shows "cells9 (set_cell g 0 0 v) = [v, b, c, d, e, f, g', h, i]"
    "cells9 (set_cell g 0 1 v) = [a, v, c, d, e, f, g', h, i]"
    "cells9 (set_cell g 0 2 v) = [a, b, v, d, e, f, g', h, i]"
    "cells9 (set_cell g 1 0 v) = [a, b, c, v, e, f, g', h, i]"
    "cells9 (set_cell g 1 1 v) = [a, b, c, d, v, f, g', h, i]"
    "cells9 (set_cell g 1 2 v) = [a, b, c, d, e, v, g', h, i]"
    "cells9 (set_cell g 2 0 v) = [a, b, c, d, e, f, v, h, i]"
    "cells9 (set_cell g 2 1 v) = [a, b, c, d, e, f, g', v, i]"
    "cells9 (set_cell g 2 2 v) = [a, b, c, d, e, f, g', h, v]"
  unfolding cells9_set_cell cells9_board [OF assms] by (rule refl)+

lemma kid_empty: "kid x p = [] \<longleftrightarrow> x \<noteq> Blank"
  by (cases x) simp_all

lemma checkFull_cells9: "checkFull g \<longleftrightarrow> Blank \<notin> set (cells9 g)"
  unfolding checkFull_iff list_moves cells9_explicit
  by (auto simp: kid_empty)

lemma checkWin_winner9: "checkWin g \<longleftrightarrow> winner9 (cells9 g) \<noteq> None"
  unfolding winner9_cells9 checkWin_lines getWinner_lines
  by (simp only: split: if_split) blast

lemma checkEnd_cells9:
  "checkEnd g \<longleftrightarrow> winner9 (cells9 g) \<noteq> None \<or> Blank \<in> set (cells9 g) \<longrightarrow> winner9 (cells9 g) \<noteq> None"
  unfolding checkEnd_def checkWin_winner9 checkFull_cells9 by auto

subsection \<open>Choosing a move from bounds on the scores\<close>

lemma pick_below:
  assumes "\<And>p. p \<in> set pre \<Longrightarrow> f p \<le> w" "score_less (fst st) (Fin (w + 1))"
  shows "score_less (fst (foldl (pick f) st pre)) (Fin (w + 1))"
  using assms
proof (induction pre arbitrary: st)
  case Nil
  then show ?case by simp
next
  case (Cons a pre)
  have "f a \<le> w" by (rule Cons.prems(1)) simp
  then have "score_less (fst (pick f st a)) (Fin (w + 1))"
    using Cons.prems(2) by (simp add: pick_def)
  then show ?case
    using Cons.prems(1) by (simp add: Cons.IH)
qed

lemma pick_keeps:
  assumes "\<And>p. p \<in> set post \<Longrightarrow> f p \<le> x"
  shows "foldl (pick f) (Fin x, Some m) post = (Fin x, Some m)"
  using assms
proof (induction post)
  case Nil
  show ?case by simp
next
  case (Cons a post)
  have "f a \<le> x" by (rule Cons.prems) simp
  then have "pick f (Fin x, Some m) a = (Fin x, Some m)"
    by (simp add: pick_def)
  then show ?case
    using Cons.prems by (simp add: Cons.IH)
qed

lemma pick_chosen:
  assumes pre: "\<And>p. p \<in> set pre \<Longrightarrow> f p \<le> w" and "w < v" and "v \<le> f m"
    and post: "\<And>p. p \<in> set post \<Longrightarrow> f p \<le> v"
  shows "snd (foldl (pick f) (NegInf, None) (pre @ m # post)) = Some m"
proof -
  have "score_less (fst (foldl (pick f) (NegInf, None) pre)) (Fin (w + 1))"
    by (rule pick_below) (simp_all add: pre)
  moreover have "w + 1 \<le> f m"
    using assms(2,3) by simp
  ultimately have "score_less (fst (foldl (pick f) (NegInf, None) pre)) (Fin (f m))"
    by (cases "fst (foldl (pick f) (NegInf, None) pre)") simp_all
  then have "pick f (foldl (pick f) (NegInf, None) pre) m = (Fin (f m), Some m)"
    by (simp add: pick_def)
  moreover have "foldl (pick f) (Fin (f m), Some m) post = (Fin (f m), Some m)"
    by (rule pick_keeps) (use post assms(3) in fastforce)
  ultimately show ?thesis
    by simp
qed

lemma best_move_by_bounds:
  assumes "getAvailableMoves g = pre @ m # post"
    and "w < v"
    and "ge_chk (computer g) (human g)
           (cells9 (set_cell g (fst m) (snd m) (Mark (computer g)))) 0 False v"
    and "list_all (\<lambda>q. le_chk (computer g) (human g)
           (cells9 (set_cell g (fst q) (snd q) (Mark (computer g)))) 0 False w) pre"
    and "list_all (\<lambda>q. le_chk (computer g) (human g)
           (cells9 (set_cell g (fst q) (snd q) (Mark (computer g)))) 0 False v) post"
  shows "getBestMove g = Some (Some m, g)"
proof -
  let ?f = "\<lambda>mv. minimax_value (set_cell g (fst mv) (snd mv) (Mark (computer g))) 0 False"
  have le: "?f q \<le> k"
    if "le_chk (computer g) (human g)
          (cells9 (set_cell g (fst q) (snd q) (Mark (computer g)))) 0 False k" for q k
    by (rule le_chk_sound) (use that in simp)
  have "v \<le> ?f m"
    by (rule ge_chk_sound) (use assms(3) in simp)
  moreover have "?f q \<le> w" if "q \<in> set pre" for q
    using assms(4) that by (auto simp: list_all_iff intro: le)
  moreover have "?f q \<le> v" if "q \<in> set post" for q
    using assms(5) that by (auto simp: list_all_iff intro: le)
  ultimately have "snd (foldl (pick ?f) (NegInf, None) (pre @ m # post)) = Some m"
    using assms(2) by (intro pick_chosen [where w = w and v = v]) auto
  then show ?thesis
    by (simp add: getBestMove_pick assms(1))
qed

subsection \<open>Both marks played by the search\<close>

text \<open>
  The game seen by the player to move: a \<open>Game\<close> whose computer is the mark to move (as
  \<open>Game.__init__\<close> makes it when the human is given the other mark), on the same board.
\<close>

definition as_computer :: "game \<Rightarrow> game" where
  "as_computer g = g\<lparr>human := (if turn g = Cross then Nought else Cross), computer := turn g\<rparr>"

text \<open>
  The loop of \<open>playGame\<close> with the computer's branch taken on every turn, each mark being
  the computer of its own game: the move is \<open>getBestMove\<close>, the mark of the turn is
  written, \<open>checkEnd\<close> ends the game, and otherwise the turn passes. \<open>None\<close> is a game
  that does not end, or a \<open>getBestMove\<close> that returns no move to unpack.
\<close>

partial_function (option) selfPlay :: "game \<Rightarrow> game option" where
  "selfPlay g =
     (case getBestMove (as_computer g) of
        None \<Rightarrow> None
      | Some r \<Rightarrow>
          (case fst r of
             None \<Rightarrow> None
           | Some mv \<Rightarrow>
               (if checkEnd (set_cell (snd r) (fst mv) (snd mv) (Mark (turn (snd r))))
                then Some (set_cell (snd r) (fst mv) (snd mv) (Mark (turn (snd r))))
                else selfPlay
                       (switchPlayer (set_cell (snd r) (fst mv) (snd mv) (Mark (turn (snd r))))))))"

lemma players_as_computer:
  "computer (as_computer g) = turn g"
  "human (as_computer g) = (if turn g = Cross then Nought else Cross)"
  by (simp_all add: as_computer_def)

lemma turn_as_computer: "turn (as_computer g) = turn g"
  by (simp add: as_computer_def)

lemma turn_set_cell: "turn (set_cell g r c v) = turn g"
  by (simp add: set_cell_def)

lemma turn_switchPlayer: "turn (switchPlayer g) = (if turn g = Cross then Nought else Cross)"
  by (simp add: switchPlayer_def)

lemma cells9_as_computer: "cells9 (as_computer g) = cells9 g"
  by (simp add: cells9_explicit as_computer_def)

lemma cells9_switchPlayer: "cells9 (switchPlayer g) = cells9 g"
  by (simp add: cells9_explicit switchPlayer_def)

lemma selfPlay_step:
  assumes "getBestMove (as_computer g) = Some (Some (r, c), as_computer g)"
    and "\<not> checkEnd (set_cell (as_computer g) r c (Mark (turn g)))"
  shows "selfPlay g = selfPlay (switchPlayer (set_cell (as_computer g) r c (Mark (turn g))))"
  by (subst selfPlay.simps) (simp add: assms turn_as_computer)

lemma selfPlay_stop:
  assumes "getBestMove (as_computer g) = Some (Some (r, c), as_computer g)"
    and "checkEnd (set_cell (as_computer g) r c (Mark (turn g)))"
  shows "selfPlay g = Some (set_cell (as_computer g) r c (Mark (turn g)))"
  by (subst selfPlay.simps) (simp add: assms turn_as_computer)

lemma ply1:
  assumes c: "cells9 g = [Blank, Blank, Blank, Blank, Blank, Blank, Blank, Blank, Blank]"
    and p: "computer g = Cross" "human g = Nought"
  shows "getBestMove g = Some (Some (0, 0), g)"
proof (rule best_move_by_bounds [where pre = "[]" and post = "[(0, 1), (0, 2), (1, 0), (1, 1), (1, 2), (2, 0), (2, 1), (2, 2)]" and v = "0" and w = "- 1"])
  show "(- 1 :: int) < 0" by simp
  note kids = cells9_set_cell_list [OF c]
  show "getAvailableMoves g = [] @ (0, 0) # [(0, 1), (0, 2), (1, 0), (1, 1), (1, 2), (2, 0), (2, 1), (2, 2)]"
    by (simp only: moves_of_cells9 [OF c] kid.simps append.simps)
  have "ge_chk Cross Nought [Mark Cross, Blank, Blank, Blank, Blank, Blank, Blank, Blank, Blank] 0 False (0)"
    by (simp only: chk_eval cong: if_weak_cong option.case_cong_weak list.case_cong_weak)
  then show "ge_chk (computer g) (human g) (cells9 (set_cell g (fst (0, 0)) (snd (0, 0)) (Mark (computer g)))) 0 False (0)"
    by (simp only: p kids fst_conv snd_conv)
  have "le_chk Cross Nought [Blank, Mark Cross, Blank, Blank, Blank, Blank, Blank, Blank, Blank] 0 False (0)"
    by (simp only: chk_eval cong: if_weak_cong option.case_cong_weak list.case_cong_weak)
  then have hi1: "le_chk (computer g) (human g) (cells9 (set_cell g 0 1 (Mark (computer g)))) 0 False (0)"
    by (simp only: p kids)
  have "le_chk Cross Nought [Blank, Blank, Mark Cross, Blank, Blank, Blank, Blank, Blank, Blank] 0 False (0)"
    by (simp only: chk_eval cong: if_weak_cong option.case_cong_weak list.case_cong_weak)
  then have hi2: "le_chk (computer g) (human g) (cells9 (set_cell g 0 2 (Mark (computer g)))) 0 False (0)"
    by (simp only: p kids)
  have "le_chk Cross Nought [Blank, Blank, Blank, Mark Cross, Blank, Blank, Blank, Blank, Blank] 0 False (0)"
    by (simp only: chk_eval cong: if_weak_cong option.case_cong_weak list.case_cong_weak)
  then have hi3: "le_chk (computer g) (human g) (cells9 (set_cell g 1 0 (Mark (computer g)))) 0 False (0)"
    by (simp only: p kids)
  have "le_chk Cross Nought [Blank, Blank, Blank, Blank, Mark Cross, Blank, Blank, Blank, Blank] 0 False (0)"
    by (simp only: chk_eval cong: if_weak_cong option.case_cong_weak list.case_cong_weak)
  then have hi4: "le_chk (computer g) (human g) (cells9 (set_cell g 1 1 (Mark (computer g)))) 0 False (0)"
    by (simp only: p kids)
  have "le_chk Cross Nought [Blank, Blank, Blank, Blank, Blank, Mark Cross, Blank, Blank, Blank] 0 False (0)"
    by (simp only: chk_eval cong: if_weak_cong option.case_cong_weak list.case_cong_weak)
  then have hi5: "le_chk (computer g) (human g) (cells9 (set_cell g 1 2 (Mark (computer g)))) 0 False (0)"
    by (simp only: p kids)
  have "le_chk Cross Nought [Blank, Blank, Blank, Blank, Blank, Blank, Mark Cross, Blank, Blank] 0 False (0)"
    by (simp only: chk_eval cong: if_weak_cong option.case_cong_weak list.case_cong_weak)
  then have hi6: "le_chk (computer g) (human g) (cells9 (set_cell g 2 0 (Mark (computer g)))) 0 False (0)"
    by (simp only: p kids)
  have "le_chk Cross Nought [Blank, Blank, Blank, Blank, Blank, Blank, Blank, Mark Cross, Blank] 0 False (0)"
    by (simp only: chk_eval cong: if_weak_cong option.case_cong_weak list.case_cong_weak)
  then have hi7: "le_chk (computer g) (human g) (cells9 (set_cell g 2 1 (Mark (computer g)))) 0 False (0)"
    by (simp only: p kids)
  have "le_chk Cross Nought [Blank, Blank, Blank, Blank, Blank, Blank, Blank, Blank, Mark Cross] 0 False (0)"
    by (simp only: chk_eval cong: if_weak_cong option.case_cong_weak list.case_cong_weak)
  then have hi8: "le_chk (computer g) (human g) (cells9 (set_cell g 2 2 (Mark (computer g)))) 0 False (0)"
    by (simp only: p kids)
  show "list_all (\<lambda>q. le_chk (computer g) (human g) (cells9 (set_cell g (fst q) (snd q) (Mark (computer g)))) 0 False (- 1)) []"
    by (simp only: list.pred_inject fst_conv snd_conv simp_thms )
  show "list_all (\<lambda>q. le_chk (computer g) (human g) (cells9 (set_cell g (fst q) (snd q) (Mark (computer g)))) 0 False (0)) [(0, 1), (0, 2), (1, 0), (1, 1), (1, 2), (2, 0), (2, 1), (2, 2)]"
    by (simp only: list.pred_inject fst_conv snd_conv simp_thms hi1 hi2 hi3 hi4 hi5 hi6 hi7 hi8)
qed

lemma ply2:
  assumes c: "cells9 g = [Mark Cross, Blank, Blank, Blank, Blank, Blank, Blank, Blank, Blank]"
    and p: "computer g = Nought" "human g = Cross"
  shows "getBestMove g = Some (Some (1, 1), g)"
proof (rule best_move_by_bounds [where pre = "[(0, 1), (0, 2), (1, 0)]" and post = "[(1, 2), (2, 0), (2, 1), (2, 2)]" and v = "0" and w = "- 1"])
  show "(- 1 :: int) < 0" by simp
  note kids = cells9_set_cell_list [OF c]
  show "getAvailableMoves g = [(0, 1), (0, 2), (1, 0)] @ (1, 1) # [(1, 2), (2, 0), (2, 1), (2, 2)]"
    by (simp only: moves_of_cells9 [OF c] kid.simps append.simps)
  have "le_chk Nought Cross [Mark Cross, Mark Nought, Blank, Blank, Blank, Blank, Blank, Blank, Blank] 0 False (- 1)"
    by (simp only: chk_eval cong: if_weak_cong option.case_cong_weak list.case_cong_weak)
  then have lo1: "le_chk (computer g) (human g) (cells9 (set_cell g 0 1 (Mark (computer g)))) 0 False (- 1)"
    by (simp only: p kids)
  have "le_chk Nought Cross [Mark Cross, Blank, Mark Nought, Blank, Blank, Blank, Blank, Blank, Blank] 0 False (- 1)"
    by (simp only: chk_eval cong: if_weak_cong option.case_cong_weak list.case_cong_weak)
  then have lo2: "le_chk (computer g) (human g) (cells9 (set_cell g 0 2 (Mark (computer g)))) 0 False (- 1)"
    by (simp only: p kids)
  have "le_chk Nought Cross [Mark Cross, Blank, Blank, Mark Nought, Blank, Blank, Blank, Blank, Blank] 0 False (- 1)"
    by (simp only: chk_eval cong: if_weak_cong option.case_cong_weak list.case_cong_weak)
  then have lo3: "le_chk (computer g) (human g) (cells9 (set_cell g 1 0 (Mark (computer g)))) 0 False (- 1)"
    by (simp only: p kids)
  have "ge_chk Nought Cross [Mark Cross, Blank, Blank, Blank, Mark Nought, Blank, Blank, Blank, Blank] 0 False (0)"
    by (simp only: chk_eval cong: if_weak_cong option.case_cong_weak list.case_cong_weak)
  then show "ge_chk (computer g) (human g) (cells9 (set_cell g (fst (1, 1)) (snd (1, 1)) (Mark (computer g)))) 0 False (0)"
    by (simp only: p kids fst_conv snd_conv)
  have "le_chk Nought Cross [Mark Cross, Blank, Blank, Blank, Blank, Mark Nought, Blank, Blank, Blank] 0 False (0)"
    by (simp only: chk_eval cong: if_weak_cong option.case_cong_weak list.case_cong_weak)
  then have hi5: "le_chk (computer g) (human g) (cells9 (set_cell g 1 2 (Mark (computer g)))) 0 False (0)"
    by (simp only: p kids)
  have "le_chk Nought Cross [Mark Cross, Blank, Blank, Blank, Blank, Blank, Mark Nought, Blank, Blank] 0 False (0)"
    by (simp only: chk_eval cong: if_weak_cong option.case_cong_weak list.case_cong_weak)
  then have hi6: "le_chk (computer g) (human g) (cells9 (set_cell g 2 0 (Mark (computer g)))) 0 False (0)"
    by (simp only: p kids)
  have "le_chk Nought Cross [Mark Cross, Blank, Blank, Blank, Blank, Blank, Blank, Mark Nought, Blank] 0 False (0)"
    by (simp only: chk_eval cong: if_weak_cong option.case_cong_weak list.case_cong_weak)
  then have hi7: "le_chk (computer g) (human g) (cells9 (set_cell g 2 1 (Mark (computer g)))) 0 False (0)"
    by (simp only: p kids)
  have "le_chk Nought Cross [Mark Cross, Blank, Blank, Blank, Blank, Blank, Blank, Blank, Mark Nought] 0 False (0)"
    by (simp only: chk_eval cong: if_weak_cong option.case_cong_weak list.case_cong_weak)
  then have hi8: "le_chk (computer g) (human g) (cells9 (set_cell g 2 2 (Mark (computer g)))) 0 False (0)"
    by (simp only: p kids)
  show "list_all (\<lambda>q. le_chk (computer g) (human g) (cells9 (set_cell g (fst q) (snd q) (Mark (computer g)))) 0 False (- 1)) [(0, 1), (0, 2), (1, 0)]"
    by (simp only: list.pred_inject fst_conv snd_conv simp_thms lo1 lo2 lo3)
  show "list_all (\<lambda>q. le_chk (computer g) (human g) (cells9 (set_cell g (fst q) (snd q) (Mark (computer g)))) 0 False (0)) [(1, 2), (2, 0), (2, 1), (2, 2)]"
    by (simp only: list.pred_inject fst_conv snd_conv simp_thms hi5 hi6 hi7 hi8)
qed

lemma ply3:
  assumes c: "cells9 g = [Mark Cross, Blank, Blank, Blank, Mark Nought, Blank, Blank, Blank, Blank]"
    and p: "computer g = Cross" "human g = Nought"
  shows "getBestMove g = Some (Some (0, 1), g)"
proof (rule best_move_by_bounds [where pre = "[]" and post = "[(0, 2), (1, 0), (1, 2), (2, 0), (2, 1), (2, 2)]" and v = "0" and w = "- 1"])
  show "(- 1 :: int) < 0" by simp
  note kids = cells9_set_cell_list [OF c]
  show "getAvailableMoves g = [] @ (0, 1) # [(0, 2), (1, 0), (1, 2), (2, 0), (2, 1), (2, 2)]"
    by (simp only: moves_of_cells9 [OF c] kid.simps append.simps)
  have "ge_chk Cross Nought [Mark Cross, Mark Cross, Blank, Blank, Mark Nought, Blank, Blank, Blank, Blank] 0 False (0)"
    by (simp only: chk_eval cong: if_weak_cong option.case_cong_weak list.case_cong_weak)
  then show "ge_chk (computer g) (human g) (cells9 (set_cell g (fst (0, 1)) (snd (0, 1)) (Mark (computer g)))) 0 False (0)"
    by (simp only: p kids fst_conv snd_conv)
  have "le_chk Cross Nought [Mark Cross, Blank, Mark Cross, Blank, Mark Nought, Blank, Blank, Blank, Blank] 0 False (0)"
    by (simp only: chk_eval cong: if_weak_cong option.case_cong_weak list.case_cong_weak)
  then have hi2: "le_chk (computer g) (human g) (cells9 (set_cell g 0 2 (Mark (computer g)))) 0 False (0)"
    by (simp only: p kids)
  have "le_chk Cross Nought [Mark Cross, Blank, Blank, Mark Cross, Mark Nought, Blank, Blank, Blank, Blank] 0 False (0)"
    by (simp only: chk_eval cong: if_weak_cong option.case_cong_weak list.case_cong_weak)
  then have hi3: "le_chk (computer g) (human g) (cells9 (set_cell g 1 0 (Mark (computer g)))) 0 False (0)"
    by (simp only: p kids)
  have "le_chk Cross Nought [Mark Cross, Blank, Blank, Blank, Mark Nought, Mark Cross, Blank, Blank, Blank] 0 False (0)"
    by (simp only: chk_eval cong: if_weak_cong option.case_cong_weak list.case_cong_weak)
  then have hi5: "le_chk (computer g) (human g) (cells9 (set_cell g 1 2 (Mark (computer g)))) 0 False (0)"
    by (simp only: p kids)
  have "le_chk Cross Nought [Mark Cross, Blank, Blank, Blank, Mark Nought, Blank, Mark Cross, Blank, Blank] 0 False (0)"
    by (simp only: chk_eval cong: if_weak_cong option.case_cong_weak list.case_cong_weak)
  then have hi6: "le_chk (computer g) (human g) (cells9 (set_cell g 2 0 (Mark (computer g)))) 0 False (0)"
    by (simp only: p kids)
  have "le_chk Cross Nought [Mark Cross, Blank, Blank, Blank, Mark Nought, Blank, Blank, Mark Cross, Blank] 0 False (0)"
    by (simp only: chk_eval cong: if_weak_cong option.case_cong_weak list.case_cong_weak)
  then have hi7: "le_chk (computer g) (human g) (cells9 (set_cell g 2 1 (Mark (computer g)))) 0 False (0)"
    by (simp only: p kids)
  have "le_chk Cross Nought [Mark Cross, Blank, Blank, Blank, Mark Nought, Blank, Blank, Blank, Mark Cross] 0 False (0)"
    by (simp only: chk_eval cong: if_weak_cong option.case_cong_weak list.case_cong_weak)
  then have hi8: "le_chk (computer g) (human g) (cells9 (set_cell g 2 2 (Mark (computer g)))) 0 False (0)"
    by (simp only: p kids)
  show "list_all (\<lambda>q. le_chk (computer g) (human g) (cells9 (set_cell g (fst q) (snd q) (Mark (computer g)))) 0 False (- 1)) []"
    by (simp only: list.pred_inject fst_conv snd_conv simp_thms )
  show "list_all (\<lambda>q. le_chk (computer g) (human g) (cells9 (set_cell g (fst q) (snd q) (Mark (computer g)))) 0 False (0)) [(0, 2), (1, 0), (1, 2), (2, 0), (2, 1), (2, 2)]"
    by (simp only: list.pred_inject fst_conv snd_conv simp_thms hi2 hi3 hi5 hi6 hi7 hi8)
qed

lemma ply4:
  assumes c: "cells9 g = [Mark Cross, Mark Cross, Blank, Blank, Mark Nought, Blank, Blank, Blank, Blank]"
    and p: "computer g = Nought" "human g = Cross"
  shows "getBestMove g = Some (Some (0, 2), g)"
proof (rule best_move_by_bounds [where pre = "[]" and post = "[(1, 0), (1, 2), (2, 0), (2, 1), (2, 2)]" and v = "0" and w = "- 1"])
  show "(- 1 :: int) < 0" by simp
  note kids = cells9_set_cell_list [OF c]
  show "getAvailableMoves g = [] @ (0, 2) # [(1, 0), (1, 2), (2, 0), (2, 1), (2, 2)]"
    by (simp only: moves_of_cells9 [OF c] kid.simps append.simps)
  have "ge_chk Nought Cross [Mark Cross, Mark Cross, Mark Nought, Blank, Mark Nought, Blank, Blank, Blank, Blank] 0 False (0)"
    by (simp only: chk_eval cong: if_weak_cong option.case_cong_weak list.case_cong_weak)
  then show "ge_chk (computer g) (human g) (cells9 (set_cell g (fst (0, 2)) (snd (0, 2)) (Mark (computer g)))) 0 False (0)"
    by (simp only: p kids fst_conv snd_conv)
  have "le_chk Nought Cross [Mark Cross, Mark Cross, Blank, Mark Nought, Mark Nought, Blank, Blank, Blank, Blank] 0 False (0)"
    by (simp only: chk_eval cong: if_weak_cong option.case_cong_weak list.case_cong_weak)
  then have hi3: "le_chk (computer g) (human g) (cells9 (set_cell g 1 0 (Mark (computer g)))) 0 False (0)"
    by (simp only: p kids)
  have "le_chk Nought Cross [Mark Cross, Mark Cross, Blank, Blank, Mark Nought, Mark Nought, Blank, Blank, Blank] 0 False (0)"
    by (simp only: chk_eval cong: if_weak_cong option.case_cong_weak list.case_cong_weak)
  then have hi5: "le_chk (computer g) (human g) (cells9 (set_cell g 1 2 (Mark (computer g)))) 0 False (0)"
    by (simp only: p kids)
  have "le_chk Nought Cross [Mark Cross, Mark Cross, Blank, Blank, Mark Nought, Blank, Mark Nought, Blank, Blank] 0 False (0)"
    by (simp only: chk_eval cong: if_weak_cong option.case_cong_weak list.case_cong_weak)
  then have hi6: "le_chk (computer g) (human g) (cells9 (set_cell g 2 0 (Mark (computer g)))) 0 False (0)"
    by (simp only: p kids)
  have "le_chk Nought Cross [Mark Cross, Mark Cross, Blank, Blank, Mark Nought, Blank, Blank, Mark Nought, Blank] 0 False (0)"
    by (simp only: chk_eval cong: if_weak_cong option.case_cong_weak list.case_cong_weak)
  then have hi7: "le_chk (computer g) (human g) (cells9 (set_cell g 2 1 (Mark (computer g)))) 0 False (0)"
    by (simp only: p kids)
  have "le_chk Nought Cross [Mark Cross, Mark Cross, Blank, Blank, Mark Nought, Blank, Blank, Blank, Mark Nought] 0 False (0)"
    by (simp only: chk_eval cong: if_weak_cong option.case_cong_weak list.case_cong_weak)
  then have hi8: "le_chk (computer g) (human g) (cells9 (set_cell g 2 2 (Mark (computer g)))) 0 False (0)"
    by (simp only: p kids)
  show "list_all (\<lambda>q. le_chk (computer g) (human g) (cells9 (set_cell g (fst q) (snd q) (Mark (computer g)))) 0 False (- 1)) []"
    by (simp only: list.pred_inject fst_conv snd_conv simp_thms )
  show "list_all (\<lambda>q. le_chk (computer g) (human g) (cells9 (set_cell g (fst q) (snd q) (Mark (computer g)))) 0 False (0)) [(1, 0), (1, 2), (2, 0), (2, 1), (2, 2)]"
    by (simp only: list.pred_inject fst_conv snd_conv simp_thms hi3 hi5 hi6 hi7 hi8)
qed

lemma ply5:
  assumes c: "cells9 g = [Mark Cross, Mark Cross, Mark Nought, Blank, Mark Nought, Blank, Blank, Blank, Blank]"
    and p: "computer g = Cross" "human g = Nought"
  shows "getBestMove g = Some (Some (2, 0), g)"
proof (rule best_move_by_bounds [where pre = "[(1, 0), (1, 2)]" and post = "[(2, 1), (2, 2)]" and v = "0" and w = "- 1"])
  show "(- 1 :: int) < 0" by simp
  note kids = cells9_set_cell_list [OF c]
  show "getAvailableMoves g = [(1, 0), (1, 2)] @ (2, 0) # [(2, 1), (2, 2)]"
    by (simp only: moves_of_cells9 [OF c] kid.simps append.simps)
  have "le_chk Cross Nought [Mark Cross, Mark Cross, Mark Nought, Mark Cross, Mark Nought, Blank, Blank, Blank, Blank] 0 False (- 1)"
    by (simp only: chk_eval cong: if_weak_cong option.case_cong_weak list.case_cong_weak)
  then have lo3: "le_chk (computer g) (human g) (cells9 (set_cell g 1 0 (Mark (computer g)))) 0 False (- 1)"
    by (simp only: p kids)
  have "le_chk Cross Nought [Mark Cross, Mark Cross, Mark Nought, Blank, Mark Nought, Mark Cross, Blank, Blank, Blank] 0 False (- 1)"
    by (simp only: chk_eval cong: if_weak_cong option.case_cong_weak list.case_cong_weak)
  then have lo5: "le_chk (computer g) (human g) (cells9 (set_cell g 1 2 (Mark (computer g)))) 0 False (- 1)"
    by (simp only: p kids)
  have "ge_chk Cross Nought [Mark Cross, Mark Cross, Mark Nought, Blank, Mark Nought, Blank, Mark Cross, Blank, Blank] 0 False (0)"
    by (simp only: chk_eval cong: if_weak_cong option.case_cong_weak list.case_cong_weak)
  then show "ge_chk (computer g) (human g) (cells9 (set_cell g (fst (2, 0)) (snd (2, 0)) (Mark (computer g)))) 0 False (0)"
    by (simp only: p kids fst_conv snd_conv)
  have "le_chk Cross Nought [Mark Cross, Mark Cross, Mark Nought, Blank, Mark Nought, Blank, Blank, Mark Cross, Blank] 0 False (0)"
    by (simp only: chk_eval cong: if_weak_cong option.case_cong_weak list.case_cong_weak)
  then have hi7: "le_chk (computer g) (human g) (cells9 (set_cell g 2 1 (Mark (computer g)))) 0 False (0)"
    by (simp only: p kids)
  have "le_chk Cross Nought [Mark Cross, Mark Cross, Mark Nought, Blank, Mark Nought, Blank, Blank, Blank, Mark Cross] 0 False (0)"
    by (simp only: chk_eval cong: if_weak_cong option.case_cong_weak list.case_cong_weak)
  then have hi8: "le_chk (computer g) (human g) (cells9 (set_cell g 2 2 (Mark (computer g)))) 0 False (0)"
    by (simp only: p kids)
  show "list_all (\<lambda>q. le_chk (computer g) (human g) (cells9 (set_cell g (fst q) (snd q) (Mark (computer g)))) 0 False (- 1)) [(1, 0), (1, 2)]"
    by (simp only: list.pred_inject fst_conv snd_conv simp_thms lo3 lo5)
  show "list_all (\<lambda>q. le_chk (computer g) (human g) (cells9 (set_cell g (fst q) (snd q) (Mark (computer g)))) 0 False (0)) [(2, 1), (2, 2)]"
    by (simp only: list.pred_inject fst_conv snd_conv simp_thms hi7 hi8)
qed

lemma ply6:
  assumes c: "cells9 g = [Mark Cross, Mark Cross, Mark Nought, Blank, Mark Nought, Blank, Mark Cross, Blank, Blank]"
    and p: "computer g = Nought" "human g = Cross"
  shows "getBestMove g = Some (Some (1, 0), g)"
proof (rule best_move_by_bounds [where pre = "[]" and post = "[(1, 2), (2, 1), (2, 2)]" and v = "0" and w = "- 1"])
  show "(- 1 :: int) < 0" by simp
  note kids = cells9_set_cell_list [OF c]
  show "getAvailableMoves g = [] @ (1, 0) # [(1, 2), (2, 1), (2, 2)]"
    by (simp only: moves_of_cells9 [OF c] kid.simps append.simps)
  have "ge_chk Nought Cross [Mark Cross, Mark Cross, Mark Nought, Mark Nought, Mark Nought, Blank, Mark Cross, Blank, Blank] 0 False (0)"
    by (simp only: chk_eval cong: if_weak_cong option.case_cong_weak list.case_cong_weak)
  then show "ge_chk (computer g) (human g) (cells9 (set_cell g (fst (1, 0)) (snd (1, 0)) (Mark (computer g)))) 0 False (0)"
    by (simp only: p kids fst_conv snd_conv)
  have "le_chk Nought Cross [Mark Cross, Mark Cross, Mark Nought, Blank, Mark Nought, Mark Nought, Mark Cross, Blank, Blank] 0 False (0)"
    by (simp only: chk_eval cong: if_weak_cong option.case_cong_weak list.case_cong_weak)
  then have hi5: "le_chk (computer g) (human g) (cells9 (set_cell g 1 2 (Mark (computer g)))) 0 False (0)"
    by (simp only: p kids)
  have "le_chk Nought Cross [Mark Cross, Mark Cross, Mark Nought, Blank, Mark Nought, Blank, Mark Cross, Mark Nought, Blank] 0 False (0)"
    by (simp only: chk_eval cong: if_weak_cong option.case_cong_weak list.case_cong_weak)
  then have hi7: "le_chk (computer g) (human g) (cells9 (set_cell g 2 1 (Mark (computer g)))) 0 False (0)"
    by (simp only: p kids)
  have "le_chk Nought Cross [Mark Cross, Mark Cross, Mark Nought, Blank, Mark Nought, Blank, Mark Cross, Blank, Mark Nought] 0 False (0)"
    by (simp only: chk_eval cong: if_weak_cong option.case_cong_weak list.case_cong_weak)
  then have hi8: "le_chk (computer g) (human g) (cells9 (set_cell g 2 2 (Mark (computer g)))) 0 False (0)"
    by (simp only: p kids)
  show "list_all (\<lambda>q. le_chk (computer g) (human g) (cells9 (set_cell g (fst q) (snd q) (Mark (computer g)))) 0 False (- 1)) []"
    by (simp only: list.pred_inject fst_conv snd_conv simp_thms )
  show "list_all (\<lambda>q. le_chk (computer g) (human g) (cells9 (set_cell g (fst q) (snd q) (Mark (computer g)))) 0 False (0)) [(1, 2), (2, 1), (2, 2)]"
    by (simp only: list.pred_inject fst_conv snd_conv simp_thms hi5 hi7 hi8)
qed

lemma ply7:
  assumes c: "cells9 g = [Mark Cross, Mark Cross, Mark Nought, Mark Nought, Mark Nought, Blank, Mark Cross, Blank, Blank]"
    and p: "computer g = Cross" "human g = Nought"
  shows "getBestMove g = Some (Some (1, 2), g)"
proof (rule best_move_by_bounds [where pre = "[]" and post = "[(2, 1), (2, 2)]" and v = "0" and w = "- 1"])
  show "(- 1 :: int) < 0" by simp
  note kids = cells9_set_cell_list [OF c]
  show "getAvailableMoves g = [] @ (1, 2) # [(2, 1), (2, 2)]"
    by (simp only: moves_of_cells9 [OF c] kid.simps append.simps)
  have "ge_chk Cross Nought [Mark Cross, Mark Cross, Mark Nought, Mark Nought, Mark Nought, Mark Cross, Mark Cross, Blank, Blank] 0 False (0)"
    by (simp only: chk_eval cong: if_weak_cong option.case_cong_weak list.case_cong_weak)
  then show "ge_chk (computer g) (human g) (cells9 (set_cell g (fst (1, 2)) (snd (1, 2)) (Mark (computer g)))) 0 False (0)"
    by (simp only: p kids fst_conv snd_conv)
  have "le_chk Cross Nought [Mark Cross, Mark Cross, Mark Nought, Mark Nought, Mark Nought, Blank, Mark Cross, Mark Cross, Blank] 0 False (0)"
    by (simp only: chk_eval cong: if_weak_cong option.case_cong_weak list.case_cong_weak)
  then have hi7: "le_chk (computer g) (human g) (cells9 (set_cell g 2 1 (Mark (computer g)))) 0 False (0)"
    by (simp only: p kids)
  have "le_chk Cross Nought [Mark Cross, Mark Cross, Mark Nought, Mark Nought, Mark Nought, Blank, Mark Cross, Blank, Mark Cross] 0 False (0)"
    by (simp only: chk_eval cong: if_weak_cong option.case_cong_weak list.case_cong_weak)
  then have hi8: "le_chk (computer g) (human g) (cells9 (set_cell g 2 2 (Mark (computer g)))) 0 False (0)"
    by (simp only: p kids)
  show "list_all (\<lambda>q. le_chk (computer g) (human g) (cells9 (set_cell g (fst q) (snd q) (Mark (computer g)))) 0 False (- 1)) []"
    by (simp only: list.pred_inject fst_conv snd_conv simp_thms )
  show "list_all (\<lambda>q. le_chk (computer g) (human g) (cells9 (set_cell g (fst q) (snd q) (Mark (computer g)))) 0 False (0)) [(2, 1), (2, 2)]"
    by (simp only: list.pred_inject fst_conv snd_conv simp_thms hi7 hi8)
qed

lemma ply8:
  assumes c: "cells9 g = [Mark Cross, Mark Cross, Mark Nought, Mark Nought, Mark Nought, Mark Cross, Mark Cross, Blank, Blank]"
    and p: "computer g = Nought" "human g = Cross"
  shows "getBestMove g = Some (Some (2, 1), g)"
proof (rule best_move_by_bounds [where pre = "[]" and post = "[(2, 2)]" and v = "0" and w = "- 1"])
  show "(- 1 :: int) < 0" by simp
  note kids = cells9_set_cell_list [OF c]
  show "getAvailableMoves g = [] @ (2, 1) # [(2, 2)]"
    by (simp only: moves_of_cells9 [OF c] kid.simps append.simps)
  have "ge_chk Nought Cross [Mark Cross, Mark Cross, Mark Nought, Mark Nought, Mark Nought, Mark Cross, Mark Cross, Mark Nought, Blank] 0 False (0)"
    by (simp only: chk_eval cong: if_weak_cong option.case_cong_weak list.case_cong_weak)
  then show "ge_chk (computer g) (human g) (cells9 (set_cell g (fst (2, 1)) (snd (2, 1)) (Mark (computer g)))) 0 False (0)"
    by (simp only: p kids fst_conv snd_conv)
  have "le_chk Nought Cross [Mark Cross, Mark Cross, Mark Nought, Mark Nought, Mark Nought, Mark Cross, Mark Cross, Blank, Mark Nought] 0 False (0)"
    by (simp only: chk_eval cong: if_weak_cong option.case_cong_weak list.case_cong_weak)
  then have hi8: "le_chk (computer g) (human g) (cells9 (set_cell g 2 2 (Mark (computer g)))) 0 False (0)"
    by (simp only: p kids)
  show "list_all (\<lambda>q. le_chk (computer g) (human g) (cells9 (set_cell g (fst q) (snd q) (Mark (computer g)))) 0 False (- 1)) []"
    by (simp only: list.pred_inject fst_conv snd_conv simp_thms )
  show "list_all (\<lambda>q. le_chk (computer g) (human g) (cells9 (set_cell g (fst q) (snd q) (Mark (computer g)))) 0 False (0)) [(2, 2)]"
    by (simp only: list.pred_inject fst_conv snd_conv simp_thms hi8)
qed

lemma ply9:
  assumes c: "cells9 g = [Mark Cross, Mark Cross, Mark Nought, Mark Nought, Mark Nought, Mark Cross, Mark Cross, Mark Nought, Blank]"
    and p: "computer g = Cross" "human g = Nought"
  shows "getBestMove g = Some (Some (2, 2), g)"
proof (rule best_move_by_bounds [where pre = "[]" and post = "[]" and v = "0" and w = "- 1"])
  show "(- 1 :: int) < 0" by simp
  note kids = cells9_set_cell_list [OF c]
  show "getAvailableMoves g = [] @ (2, 2) # []"
    by (simp only: moves_of_cells9 [OF c] kid.simps append.simps)
  have "ge_chk Cross Nought [Mark Cross, Mark Cross, Mark Nought, Mark Nought, Mark Nought, Mark Cross, Mark Cross, Mark Nought, Mark Cross] 0 False (0)"
    by (simp only: chk_eval cong: if_weak_cong option.case_cong_weak list.case_cong_weak)
  then show "ge_chk (computer g) (human g) (cells9 (set_cell g (fst (2, 2)) (snd (2, 2)) (Mark (computer g)))) 0 False (0)"
    by (simp only: p kids fst_conv snd_conv)
  show "list_all (\<lambda>q. le_chk (computer g) (human g) (cells9 (set_cell g (fst q) (snd q) (Mark (computer g)))) 0 False (- 1)) []"
    by (simp only: list.pred_inject fst_conv snd_conv simp_thms )
  show "list_all (\<lambda>q. le_chk (computer g) (human g) (cells9 (set_cell g (fst q) (snd q) (Mark (computer g)))) 0 False (0)) []"
    by (simp only: list.pred_inject fst_conv snd_conv simp_thms )
qed

text \<open>
  C3. From the empty board with \<open>"X"\<close> to move, when both marks take every move from
  \<open>getBestMove\<close>, each as the computer of its own game, the game ends, and it ends with a
  full board on which \<open>getWinner\<close> returns \<open>None\<close>: a draw.
\<close>

theorem minimax_self_play_draw:
  "\<exists>final. selfPlay (Game h) = Some final \<and> checkFull final \<and> getWinner final = None"
proof -
  define s0 where "s0 = Game h"
  have c0: "cells9 s0 = [Blank, Blank, Blank, Blank, Blank, Blank, Blank, Blank, Blank]" and t0: "turn s0 = Cross"
    by (simp_all add: s0_def Game_def Board_def cells9_explicit)
  have m0: "getBestMove (as_computer s0) = Some (Some (0, 0), as_computer s0)"
    by (rule ply1) (simp_all only: cells9_as_computer c0 players_as_computer t0 mark.simps if_True if_False simp_thms)
  have e0: "cells9 (set_cell (as_computer s0) 0 0 (Mark Cross)) = [Mark Cross, Blank, Blank, Blank, Blank, Blank, Blank, Blank, Blank]"
    by (simp only: cells9_set_cell_list [OF c0 [folded cells9_as_computer [of s0]]])
  define s1 where "s1 = switchPlayer (set_cell (as_computer s0) 0 0 (Mark Cross))"
  have c1: "cells9 s1 = [Mark Cross, Blank, Blank, Blank, Blank, Blank, Blank, Blank, Blank]" and t1: "turn s1 = Nought"
    by (simp_all only: s1_def cells9_switchPlayer e0 turn_switchPlayer turn_set_cell turn_as_computer t0 mark.simps if_True if_False simp_thms)
  have n0: "\<not> checkEnd (set_cell (as_computer s0) 0 0 (Mark Cross))"
    by (simp only: checkEnd_cells9 e0 chk_eval list.set insert_iff empty_iff cong: if_weak_cong)
  have r0: "selfPlay s0 = selfPlay s1"
    unfolding s1_def by (rule selfPlay_step [of s0 0 0, unfolded t0, OF m0 n0])
  have m1: "getBestMove (as_computer s1) = Some (Some (1, 1), as_computer s1)"
    by (rule ply2) (simp_all only: cells9_as_computer c1 players_as_computer t1 mark.simps if_True if_False simp_thms)
  have e1: "cells9 (set_cell (as_computer s1) 1 1 (Mark Nought)) = [Mark Cross, Blank, Blank, Blank, Mark Nought, Blank, Blank, Blank, Blank]"
    by (simp only: cells9_set_cell_list [OF c1 [folded cells9_as_computer [of s1]]])
  define s2 where "s2 = switchPlayer (set_cell (as_computer s1) 1 1 (Mark Nought))"
  have c2: "cells9 s2 = [Mark Cross, Blank, Blank, Blank, Mark Nought, Blank, Blank, Blank, Blank]" and t2: "turn s2 = Cross"
    by (simp_all only: s2_def cells9_switchPlayer e1 turn_switchPlayer turn_set_cell turn_as_computer t1 mark.simps if_True if_False simp_thms)
  have n1: "\<not> checkEnd (set_cell (as_computer s1) 1 1 (Mark Nought))"
    by (simp only: checkEnd_cells9 e1 chk_eval list.set insert_iff empty_iff cong: if_weak_cong)
  have r1: "selfPlay s1 = selfPlay s2"
    unfolding s2_def by (rule selfPlay_step [of s1 1 1, unfolded t1, OF m1 n1])
  have m2: "getBestMove (as_computer s2) = Some (Some (0, 1), as_computer s2)"
    by (rule ply3) (simp_all only: cells9_as_computer c2 players_as_computer t2 mark.simps if_True if_False simp_thms)
  have e2: "cells9 (set_cell (as_computer s2) 0 1 (Mark Cross)) = [Mark Cross, Mark Cross, Blank, Blank, Mark Nought, Blank, Blank, Blank, Blank]"
    by (simp only: cells9_set_cell_list [OF c2 [folded cells9_as_computer [of s2]]])
  define s3 where "s3 = switchPlayer (set_cell (as_computer s2) 0 1 (Mark Cross))"
  have c3: "cells9 s3 = [Mark Cross, Mark Cross, Blank, Blank, Mark Nought, Blank, Blank, Blank, Blank]" and t3: "turn s3 = Nought"
    by (simp_all only: s3_def cells9_switchPlayer e2 turn_switchPlayer turn_set_cell turn_as_computer t2 mark.simps if_True if_False simp_thms)
  have n2: "\<not> checkEnd (set_cell (as_computer s2) 0 1 (Mark Cross))"
    by (simp only: checkEnd_cells9 e2 chk_eval list.set insert_iff empty_iff cong: if_weak_cong)
  have r2: "selfPlay s2 = selfPlay s3"
    unfolding s3_def by (rule selfPlay_step [of s2 0 1, unfolded t2, OF m2 n2])
  have m3: "getBestMove (as_computer s3) = Some (Some (0, 2), as_computer s3)"
    by (rule ply4) (simp_all only: cells9_as_computer c3 players_as_computer t3 mark.simps if_True if_False simp_thms)
  have e3: "cells9 (set_cell (as_computer s3) 0 2 (Mark Nought)) = [Mark Cross, Mark Cross, Mark Nought, Blank, Mark Nought, Blank, Blank, Blank, Blank]"
    by (simp only: cells9_set_cell_list [OF c3 [folded cells9_as_computer [of s3]]])
  define s4 where "s4 = switchPlayer (set_cell (as_computer s3) 0 2 (Mark Nought))"
  have c4: "cells9 s4 = [Mark Cross, Mark Cross, Mark Nought, Blank, Mark Nought, Blank, Blank, Blank, Blank]" and t4: "turn s4 = Cross"
    by (simp_all only: s4_def cells9_switchPlayer e3 turn_switchPlayer turn_set_cell turn_as_computer t3 mark.simps if_True if_False simp_thms)
  have n3: "\<not> checkEnd (set_cell (as_computer s3) 0 2 (Mark Nought))"
    by (simp only: checkEnd_cells9 e3 chk_eval list.set insert_iff empty_iff cong: if_weak_cong)
  have r3: "selfPlay s3 = selfPlay s4"
    unfolding s4_def by (rule selfPlay_step [of s3 0 2, unfolded t3, OF m3 n3])
  have m4: "getBestMove (as_computer s4) = Some (Some (2, 0), as_computer s4)"
    by (rule ply5) (simp_all only: cells9_as_computer c4 players_as_computer t4 mark.simps if_True if_False simp_thms)
  have e4: "cells9 (set_cell (as_computer s4) 2 0 (Mark Cross)) = [Mark Cross, Mark Cross, Mark Nought, Blank, Mark Nought, Blank, Mark Cross, Blank, Blank]"
    by (simp only: cells9_set_cell_list [OF c4 [folded cells9_as_computer [of s4]]])
  define s5 where "s5 = switchPlayer (set_cell (as_computer s4) 2 0 (Mark Cross))"
  have c5: "cells9 s5 = [Mark Cross, Mark Cross, Mark Nought, Blank, Mark Nought, Blank, Mark Cross, Blank, Blank]" and t5: "turn s5 = Nought"
    by (simp_all only: s5_def cells9_switchPlayer e4 turn_switchPlayer turn_set_cell turn_as_computer t4 mark.simps if_True if_False simp_thms)
  have n4: "\<not> checkEnd (set_cell (as_computer s4) 2 0 (Mark Cross))"
    by (simp only: checkEnd_cells9 e4 chk_eval list.set insert_iff empty_iff cong: if_weak_cong)
  have r4: "selfPlay s4 = selfPlay s5"
    unfolding s5_def by (rule selfPlay_step [of s4 2 0, unfolded t4, OF m4 n4])
  have m5: "getBestMove (as_computer s5) = Some (Some (1, 0), as_computer s5)"
    by (rule ply6) (simp_all only: cells9_as_computer c5 players_as_computer t5 mark.simps if_True if_False simp_thms)
  have e5: "cells9 (set_cell (as_computer s5) 1 0 (Mark Nought)) = [Mark Cross, Mark Cross, Mark Nought, Mark Nought, Mark Nought, Blank, Mark Cross, Blank, Blank]"
    by (simp only: cells9_set_cell_list [OF c5 [folded cells9_as_computer [of s5]]])
  define s6 where "s6 = switchPlayer (set_cell (as_computer s5) 1 0 (Mark Nought))"
  have c6: "cells9 s6 = [Mark Cross, Mark Cross, Mark Nought, Mark Nought, Mark Nought, Blank, Mark Cross, Blank, Blank]" and t6: "turn s6 = Cross"
    by (simp_all only: s6_def cells9_switchPlayer e5 turn_switchPlayer turn_set_cell turn_as_computer t5 mark.simps if_True if_False simp_thms)
  have n5: "\<not> checkEnd (set_cell (as_computer s5) 1 0 (Mark Nought))"
    by (simp only: checkEnd_cells9 e5 chk_eval list.set insert_iff empty_iff cong: if_weak_cong)
  have r5: "selfPlay s5 = selfPlay s6"
    unfolding s6_def by (rule selfPlay_step [of s5 1 0, unfolded t5, OF m5 n5])
  have m6: "getBestMove (as_computer s6) = Some (Some (1, 2), as_computer s6)"
    by (rule ply7) (simp_all only: cells9_as_computer c6 players_as_computer t6 mark.simps if_True if_False simp_thms)
  have e6: "cells9 (set_cell (as_computer s6) 1 2 (Mark Cross)) = [Mark Cross, Mark Cross, Mark Nought, Mark Nought, Mark Nought, Mark Cross, Mark Cross, Blank, Blank]"
    by (simp only: cells9_set_cell_list [OF c6 [folded cells9_as_computer [of s6]]])
  define s7 where "s7 = switchPlayer (set_cell (as_computer s6) 1 2 (Mark Cross))"
  have c7: "cells9 s7 = [Mark Cross, Mark Cross, Mark Nought, Mark Nought, Mark Nought, Mark Cross, Mark Cross, Blank, Blank]" and t7: "turn s7 = Nought"
    by (simp_all only: s7_def cells9_switchPlayer e6 turn_switchPlayer turn_set_cell turn_as_computer t6 mark.simps if_True if_False simp_thms)
  have n6: "\<not> checkEnd (set_cell (as_computer s6) 1 2 (Mark Cross))"
    by (simp only: checkEnd_cells9 e6 chk_eval list.set insert_iff empty_iff cong: if_weak_cong)
  have r6: "selfPlay s6 = selfPlay s7"
    unfolding s7_def by (rule selfPlay_step [of s6 1 2, unfolded t6, OF m6 n6])
  have m7: "getBestMove (as_computer s7) = Some (Some (2, 1), as_computer s7)"
    by (rule ply8) (simp_all only: cells9_as_computer c7 players_as_computer t7 mark.simps if_True if_False simp_thms)
  have e7: "cells9 (set_cell (as_computer s7) 2 1 (Mark Nought)) = [Mark Cross, Mark Cross, Mark Nought, Mark Nought, Mark Nought, Mark Cross, Mark Cross, Mark Nought, Blank]"
    by (simp only: cells9_set_cell_list [OF c7 [folded cells9_as_computer [of s7]]])
  define s8 where "s8 = switchPlayer (set_cell (as_computer s7) 2 1 (Mark Nought))"
  have c8: "cells9 s8 = [Mark Cross, Mark Cross, Mark Nought, Mark Nought, Mark Nought, Mark Cross, Mark Cross, Mark Nought, Blank]" and t8: "turn s8 = Cross"
    by (simp_all only: s8_def cells9_switchPlayer e7 turn_switchPlayer turn_set_cell turn_as_computer t7 mark.simps if_True if_False simp_thms)
  have n7: "\<not> checkEnd (set_cell (as_computer s7) 2 1 (Mark Nought))"
    by (simp only: checkEnd_cells9 e7 chk_eval list.set insert_iff empty_iff cong: if_weak_cong)
  have r7: "selfPlay s7 = selfPlay s8"
    unfolding s8_def by (rule selfPlay_step [of s7 2 1, unfolded t7, OF m7 n7])
  have m8: "getBestMove (as_computer s8) = Some (Some (2, 2), as_computer s8)"
    by (rule ply9) (simp_all only: cells9_as_computer c8 players_as_computer t8 mark.simps if_True if_False simp_thms)
  have e8: "cells9 (set_cell (as_computer s8) 2 2 (Mark Cross)) = [Mark Cross, Mark Cross, Mark Nought, Mark Nought, Mark Nought, Mark Cross, Mark Cross, Mark Nought, Mark Cross]"
    by (simp only: cells9_set_cell_list [OF c8 [folded cells9_as_computer [of s8]]])
  define final where "final = set_cell (as_computer s8) 2 2 (Mark Cross)"
  have cf: "cells9 final = [Mark Cross, Mark Cross, Mark Nought, Mark Nought, Mark Nought, Mark Cross, Mark Cross, Mark Nought, Mark Cross]"
    by (simp only: final_def e8)
  have full: "checkFull final"
    by (simp only: checkFull_cells9 cf list.set insert_iff empty_iff cell.simps simp_thms)
  have nowin: "getWinner final = None"
    by (simp only: winner9_cells9 [symmetric] cf chk_eval cong: if_weak_cong)
  have en: "checkEnd final"
    by (simp only: checkEnd_def full if_True simp_thms split: if_split)
  have r8: "selfPlay s8 = Some final"
    unfolding final_def by (rule selfPlay_stop [of s8 2 2, unfolded t8, OF m8 en [unfolded final_def]])
  have "selfPlay (Game h) = Some final"
    by (simp only: s0_def [symmetric] r0 r1 r2 r3 r4 r5 r6 r7 r8)
  then show ?thesis
    using full nowin by blast
qed

section \<open>The dataset player (QY\_Project2\_PartC.py)\<close>

text \<open>
  \<open>dataset_type\<close> is one of the two strings \<open>'single'\<close> and \<open>'final'\<close>. A record of the
  dataset is a board state (nine integers, by \<open>loadDataset\<close>) and an output.
\<close>

datatype dataset_kind = Single | Final

record MLPlayer =
  dataset :: "(int list \<times> int) list"
  dataset_type :: dataset_kind

record ml_game = game +
  ml_player :: MLPlayer

datatype error = ValueError | IndexError

subsection \<open>Reading the dataset\<close>

text \<open>
  A character is a code point below 256. \<open>is_space\<close> is the whitespace of \<open>str.strip\<close>
  and \<open>str.split\<close> among these: tab to carriage return, the four separators \<open>0x1c\<close> to
  \<open>0x1f\<close>, space, the next-line character \<open>0x85\<close> and the no-break space \<open>0xa0\<close>.
\<close>

definition is_space :: "char \<Rightarrow> bool" where
  "is_space c = ((9 \<le> (of_char c :: nat) \<and> (of_char c :: nat) \<le> 13)
                 \<or> (28 \<le> (of_char c :: nat) \<and> (of_char c :: nat) \<le> 32)
                 \<or> (of_char c :: nat) = 133 \<or> (of_char c :: nat) = 160)"

definition strip :: "string \<Rightarrow> string" where
  "strip s = rev (dropWhile is_space (rev (dropWhile is_space s)))"

fun split_from :: "string \<Rightarrow> string \<Rightarrow> string list" where
  "split_from cur [] = (if cur = [] then [] else [cur])"
| "split_from cur (c # cs) =
     (if is_space c then (if cur = [] then split_from [] cs else cur # split_from [] cs)
      else split_from (cur @ [c]) cs)"

definition split :: "string \<Rightarrow> string list" where
  "split s = split_from [] s"

text \<open>
  \<open>int(x)\<close> on a token: an optional sign, then decimal digits, where single underscores
  may stand between digits. Of the code points below 256 only \<open>0\<close> to \<open>9\<close> are digits.
  \<open>None\<close> is the \<open>ValueError\<close>. A literal of more than \<open>max_str_digits\<close> digits (the
  underscores and the sign are not counted) is a \<open>ValueError\<close> as well: 4300 is the limit
  that CPython sets by default (\<open>sys.get_int_max_str_digits()\<close>, from version 3.11).
\<close>

definition max_str_digits :: nat where
  "max_str_digits = 4300"

definition digit_val :: "char \<Rightarrow> nat option" where
  "digit_val c =
     (if 48 \<le> (of_char c :: nat) \<and> (of_char c :: nat) \<le> 57 then Some (of_char c - 48) else None)"

fun int_body :: "nat \<Rightarrow> string \<Rightarrow> nat option" where
  "int_body acc [] = Some acc"
| "int_body acc [c] = (case digit_val c of None \<Rightarrow> None | Some v \<Rightarrow> Some (10 * acc + v))"
| "int_body acc (c # d # ds) =
     (if c = CHR ''_'' then
        (case digit_val d of None \<Rightarrow> None | Some v \<Rightarrow> int_body (10 * acc + v) ds)
      else
        (case digit_val c of None \<Rightarrow> None | Some v \<Rightarrow> int_body (10 * acc + v) (d # ds)))"

definition nat_literal :: "string \<Rightarrow> nat option" where
  "nat_literal s =
     (if max_str_digits < length (filter (\<lambda>c. digit_val c \<noteq> None) s) then None
      else (case s of [] \<Rightarrow> None
            | c # cs \<Rightarrow> (case digit_val c of None \<Rightarrow> None | Some v \<Rightarrow> int_body v cs)))"

definition py_int :: "string \<Rightarrow> int option" where
  "py_int s =
     (case s of [] \<Rightarrow> None
      | c # cs \<Rightarrow>
          if c = CHR ''-'' then map_option (\<lambda>n. - int n) (nat_literal cs)
          else if c = CHR ''+'' then map_option int (nat_literal cs)
          else map_option int (nat_literal s))"

text \<open>The list comprehension \<open>[int(x) for x in line.split()]\<close>: the first failure raises.\<close>

fun parse_ints :: "string list \<Rightarrow> int list option" where
  "parse_ints [] = Some []"
| "parse_ints (t # ts) =
     (case py_int t of None \<Rightarrow> None
      | Some v \<Rightarrow> (case parse_ints ts of None \<Rightarrow> None | Some vs \<Rightarrow> Some (v # vs)))"

text \<open>The loop over the lines of the file; \<open>ds\<close> is \<open>self.dataset\<close>.\<close>

fun load_lines :: "(int list \<times> int) list \<Rightarrow> string list \<Rightarrow> error + (int list \<times> int) list" where
  "load_lines ds [] = Inr ds"
| "load_lines ds (line # rest) =
     (if strip line = [] then load_lines ds rest
      else (case parse_ints (split (strip line)) of
              None \<Rightarrow> Inl ValueError
            | Some values \<Rightarrow>
                if length values = 10
                then load_lines (ds @ [(take 9 values, values ! 9)]) rest
                else load_lines ds rest))"

text \<open>
  \<open>str.lower\<close> on code points below 256: the letters \<open>A\<close> to \<open>Z\<close> and the letters from
  \<open>0xc0\<close> to \<open>0xde\<close> (\<open>0xd7\<close>, the multiplication sign, is not one) move up by 32.
\<close>

definition lower :: "string \<Rightarrow> string" where
  "lower s = map (\<lambda>c. if (65 \<le> (of_char c :: nat) \<and> (of_char c :: nat) \<le> 90)
                            \<or> (192 \<le> (of_char c :: nat) \<and> (of_char c :: nat) \<le> 222
                                \<and> (of_char c :: nat) \<noteq> 215)
                         then char_of ((of_char c :: nat) + 32) else c) s"

fun starts_with :: "string \<Rightarrow> string \<Rightarrow> bool" where
  "starts_with [] s = True"
| "starts_with (p # ps) [] = False"
| "starts_with (p # ps) (c # cs) = (p = c \<and> starts_with ps cs)"

fun contains :: "string \<Rightarrow> string \<Rightarrow> bool" where
  "contains sub [] = (sub = [])"
| "contains sub (c # cs) = (starts_with sub (c # cs) \<or> contains sub cs)"

text \<open>
  \<open>loadDataset\<close>: the file is its list of lines, or \<open>None\<close> when it does not exist
  (\<open>FileNotFoundError\<close>, the only exception caught). It returns the dataset type with the
  extended dataset, or the exception that leaves it.
\<close>

definition loadDataset ::
  "(int list \<times> int) list \<Rightarrow> string \<Rightarrow> string list option
     \<Rightarrow> error + (dataset_kind \<times> (int list \<times> int) list)" where
  "loadDataset ds filename file =
     (case file of
        None \<Rightarrow> Inr (Single, ds)
      | Some lines \<Rightarrow>
          (case load_lines ds lines of
             Inl e \<Rightarrow> Inl e
           | Inr ds' \<Rightarrow>
               if contains ''single'' (lower filename) then Inr (Single, ds')
               else if contains ''final'' (lower filename) then Inr (Final, ds')
               else Inr (Single, ds')))"

subsection \<open>Choosing a move from the dataset\<close>

definition getBoardState :: "grid \<Rightarrow> int list" where
  "getBoardState c =
     concat (map (\<lambda>i. map (\<lambda>j. if c i j = Mark Cross then 1
                                 else if c i j = Mark Nought then - 1 else 0) [0..<3]) [0..<3])"

definition indexToRowCol :: "int \<Rightarrow> int \<times> int" where
  "indexToRowCol index = (index div 3, index mod 3)"

text \<open>\<open>list.sort(reverse=True, key=...)\<close>: descending by key, equal keys in their old order.\<close>

definition sort_reverse :: "('a \<Rightarrow> nat) \<Rightarrow> 'a list \<Rightarrow> 'a list" where
  "sort_reverse key xs = sort_key (\<lambda>x. - int (key x)) xs"

text \<open>
  The first loop of \<open>findSimilarBoardMoves\<close>. It reads \<open>current_state[i]\<close> and
  \<open>board_state[i]\<close> for every \<open>i\<close> in \<open>range(9)\<close>: a state of fewer than nine integers
  raises \<open>IndexError\<close>, at the first record where that happens.
\<close>

fun similarities_of ::
  "int list \<Rightarrow> (int list \<times> int) list \<Rightarrow> error + (nat \<times> int list \<times> int) list" where
  "similarities_of current_state [] = Inr []"
| "similarities_of current_state (r # rest) =
     (if 9 \<le> length current_state \<and> 9 \<le> length (fst r) then
        (case similarities_of current_state rest of
           Inl e \<Rightarrow> Inl e
         | Inr sims \<Rightarrow>
             Inr ((length (filter (\<lambda>i. current_state ! i = fst r ! i) [0..<9]), fst r, snd r)
                    # sims))
      else Inl IndexError)"

text \<open>
  \<open>findSimilarBoardMoves\<close>. The second loop reads the same positions of states that the
  first loop has read: its indices are in range.
\<close>

definition findSimilarBoardMoves :: "MLPlayer \<Rightarrow> int list \<Rightarrow> nat \<Rightarrow> error + int list" where
  "findSimilarBoardMoves p current_state k =
     (case similarities_of current_state (dataset p) of
        Inl e \<Rightarrow> Inl e
      | Inr similarities \<Rightarrow>
          (let top_k = take k (sort_reverse fst similarities)
           in Inr (concat (map (\<lambda>t. map int (filter (\<lambda>i. current_state ! i = 0 \<and>
                                                         fst (snd t) ! i \<noteq> 0) [0..<9]))
                            top_k))))"

text \<open>
  \<open>max(xs, key=f)\<close>: the first element whose key no later element beats; \<open>None\<close> is the
  \<open>ValueError\<close> on an empty argument.
\<close>

fun max_key :: "('a \<Rightarrow> nat) \<Rightarrow> 'a list \<Rightarrow> 'a option" where
  "max_key f [] = None"
| "max_key f (x # xs) = Some (foldl (\<lambda>b y. if f b < f y then y else b) x xs)"

text \<open>
  \<open>findBestMove\<close>; the value \<open>None\<close> of Python is \<open>Inr None\<close>. Python does not fix the
  order in which \<open>set(similar_moves)\<close> is iterated: \<open>set_order\<close> gives, for a list, the
  order in which the set of its elements is iterated.
\<close>

definition findBestMove ::
  "(int list \<Rightarrow> int list) \<Rightarrow> MLPlayer \<Rightarrow> int list \<Rightarrow> error + int option" where
  "findBestMove set_order p current_state =
     (if dataset p = [] then Inr None
      else if dataset_type p = Single then
        (case find (\<lambda>r. fst r = current_state) (dataset p) of
           Some r \<Rightarrow> Inr (Some (snd r))
         | None \<Rightarrow> Inr None)
      else if dataset_type p = Final then
        (case findSimilarBoardMoves p current_state 5 of
           Inl e \<Rightarrow> Inl e
         | Inr similar_moves \<Rightarrow>
             if similar_moves \<noteq> []
             then Inr (max_key (count_list similar_moves) (set_order similar_moves))
             else Inr None)
      else Inr None)"

definition getAvailableMoves_C :: "ml_game \<Rightarrow> int list" where
  "getAvailableMoves_C g =
     concat (map (\<lambda>i. concat (map (\<lambda>j. if board g i j = Blank then [int i * 3 + int j] else [])
                                  [0..<3])) [0..<3])"

text \<open>\<open>random.choice(seq)\<close> with the number \<open>rnd\<close> drawn: \<open>IndexError\<close> on an empty list.\<close>

definition random_choice :: "'a list \<Rightarrow> nat \<Rightarrow> error + 'a" where
  "random_choice xs rnd = (if xs = [] then Inl IndexError else Inr (xs ! (rnd mod length xs)))"

definition getMLMove :: "(int list \<Rightarrow> int list) \<Rightarrow> ml_game \<Rightarrow> nat \<Rightarrow> error + (int \<times> int)" where
  "getMLMove set_order g rnd =
     (let current_state = getBoardState (board g)
      in case findBestMove set_order (ml_player g) current_state of
           Inl e \<Rightarrow> Inl e
         | Inr best_move_index \<Rightarrow>
             (case best_move_index of
                Some i \<Rightarrow>
                  if i \<in> set (getAvailableMoves_C g) then Inr (indexToRowCol i)
                  else map_sum id indexToRowCol (random_choice (getAvailableMoves_C g) rnd)
              | None \<Rightarrow> map_sum id indexToRowCol (random_choice (getAvailableMoves_C g) rnd)))"

subsection \<open>What the claims say, in their words\<close>

text \<open>The number of positions at which a query and a board state agree.\<close>

definition similarity :: "int list \<Rightarrow> int list \<Rightarrow> nat" where
  "similarity q s = length (filter (\<lambda>i. q ! i = s ! i) [0..<9])"

text \<open>The candidate moves of a list of records: the positions empty in the query and not in the record.\<close>

definition candidates :: "int list \<Rightarrow> (int list \<times> int) list \<Rightarrow> int list" where
  "candidates q rs =
     concat (map (\<lambda>r. map int (filter (\<lambda>i. q ! i = 0 \<and> fst r ! i \<noteq> 0) [0..<9])) rs)"

text \<open>
  The most frequent element of a list, the earliest in the list among the equally
  frequent ones.
\<close>

definition first_most_frequent :: "int list \<Rightarrow> int option" where
  "first_most_frequent xs = max_key (count_list xs) xs"

subsection \<open>The iteration order of a set in CPython\<close>

text \<open>
  Python leaves the iteration order of a set open. CPython (\<open>Objects/setobject.c\<close>) keeps
  a set in a hash table with open addressing and iterates the slots of the table from the
  first to the last. The model is for the integers from 0 to \<open>2^61 - 2\<close>, each of which is
  its own hash; the candidate moves are among 0 to 8. A table is the list of its slots,
  \<open>None\<close> an unused one; no key is ever removed, so there is no dummy entry.

  \<open>set_probe\<close> is the search for a slot, shared by \<open>set_add_entry\<close> (which stops at an
  unused slot or at the key) and \<open>set_insert_clean\<close> (which stops at an unused slot): from
  slot \<open>i\<close> it looks at the \<open>LINEAR_PROBES = 9\<close> following slots too when they are in the
  table, then jumps to \<open>(i * 5 + 1 + perturb) & mask\<close> with \<open>perturb\<close> shifted right by
  \<open>PERTURB_SHIFT = 5\<close>. The length of a table is a power of two, \<open>mask\<close> is that length less
  one, so \<open>x & mask\<close> is \<open>x mod length table\<close>. The loop is a \<open>while (1)\<close>: \<open>None\<close> is a
  search that does not end.
\<close>

type_synonym table = "int option list"

partial_function (option) set_probe ::
  "(int option \<Rightarrow> bool) \<Rightarrow> table \<Rightarrow> nat \<Rightarrow> nat \<Rightarrow> nat option" where
  "set_probe found table i perturb =
     (case find (\<lambda>s. found (table ! s))
             [i ..< i + (if i + 9 \<le> length table - 1 then 9 else 0) + 1] of
        Some s \<Rightarrow> Some s
      | None \<Rightarrow>
          set_probe found table ((i * 5 + 1 + perturb div 32) mod length table) (perturb div 32))"

declare set_probe.simps [code]

definition set_insert_clean :: "table \<Rightarrow> int \<Rightarrow> table option" where
  "set_insert_clean table key =
     (case set_probe (\<lambda>e. e = None) table (nat key mod length table) (nat key) of
        None \<Rightarrow> None
      | Some s \<Rightarrow> Some (table[s := Some key]))"

text \<open>
  \<open>set_table_resize\<close>: the new size is \<open>PySet_MINSIZE = 8\<close> doubled until it exceeds
  \<open>minused\<close>; the keys of the old table are inserted into the new one in the order of
  their slots.
\<close>

function grow :: "nat \<Rightarrow> nat \<Rightarrow> nat" where
  "grow newsize minused =
     (if 0 < newsize \<and> newsize \<le> minused then grow (newsize * 2) minused else newsize)"
  by pat_completeness auto
termination
  by (relation "measure (\<lambda>(newsize, minused). minused + 1 - newsize)") auto

fun insert_all :: "table \<Rightarrow> int option list \<Rightarrow> table option" where
  "insert_all newtable [] = Some newtable"
| "insert_all newtable (None # entries) = insert_all newtable entries"
| "insert_all newtable (Some key # entries) =
     (case set_insert_clean newtable key of
        None \<Rightarrow> None
      | Some t \<Rightarrow> insert_all t entries)"

definition set_table_resize :: "table \<Rightarrow> nat \<Rightarrow> table option" where
  "set_table_resize oldtable minused = insert_all (replicate (grow 8 minused) None) oldtable"

text \<open>
  \<open>set_add_entry\<close>: a key that is in the table changes nothing; a new key takes the unused
  slot found, and the table is resized when, with it, \<open>fill * 5 \<ge> mask * 3\<close>.
\<close>

definition set_add_entry :: "table \<Rightarrow> int \<Rightarrow> table option" where
  "set_add_entry table key =
     (case set_probe (\<lambda>e. e = None \<or> e = Some key) table (nat key mod length table) (nat key) of
        None \<Rightarrow> None
      | Some s \<Rightarrow>
          if table ! s = Some key then Some table
          else (let table' = table[s := Some key];
                    used = length (filter (\<lambda>e. e \<noteq> None) table')
                in if used * 5 < (length table - 1) * 3 then Some table'
                   else set_table_resize table' (if 50000 < used then used * 2 else used * 4)))"

text \<open>\<open>set(xs)\<close> adds the elements of \<open>xs\<close>, in their order, to an empty table of 8 slots.\<close>

fun set_update :: "table \<Rightarrow> int list \<Rightarrow> table option" where
  "set_update table [] = Some table"
| "set_update table (key # keys) =
     (case set_add_entry table key of
        None \<Rightarrow> None
      | Some t \<Rightarrow> set_update t keys)"

text \<open>
  The order in which CPython iterates \<open>set(xs)\<close>: the keys in the order of their slots (and
  nothing if building the set did not end).
\<close>

definition cpython_set_order :: "int list \<Rightarrow> int list" where
  "cpython_set_order xs =
     (case set_update (replicate 8 None) xs of
        None \<Rightarrow> []
      | Some table \<Rightarrow> map the (filter (\<lambda>e. e \<noteq> None) table))"

text \<open>
  The set is not iterated in the order of the list it is built from, nor in ascending
  order: 8 takes slot 0.
\<close>

lemma cpython_set_order_examples:
  "cpython_set_order [6, 2, 7] = [2, 6, 7]"
  "cpython_set_order [1, 8] = [8, 1]"
  "cpython_set_order [8, 0] = [8, 0]"
  "cpython_set_order [0, 8, 1] = [0, 8, 1]"
  by code_simp+

subsection \<open>The stable sort and the first maximum\<close>

lemma insort_key_map:
  "insort_key f (g x) (map g xs) = map g (insort_key (\<lambda>y. f (g y)) x xs)"
  by (induction xs) simp_all

lemma sort_key_map:
  "sort_key f (map g xs) = map g (sort_key (\<lambda>y. f (g y)) xs)"
  by (induction xs) (simp_all add: insort_key_map)

lemma similarities_of_nine:
  "length q = 9 \<Longrightarrow> list_all (\<lambda>r. length (fst r) = 9) ds \<Longrightarrow>
     similarities_of q ds = Inr (map (\<lambda>r. (similarity q (fst r), fst r, snd r)) ds)"
  by (induction ds) (simp_all add: similarity_def)

lemma similar_moves_candidates:
  "length q = 9 \<Longrightarrow> list_all (\<lambda>r. length (fst r) = 9) (dataset p) \<Longrightarrow>
     findSimilarBoardMoves p q k =
       Inr (candidates q (take k (sort_key (\<lambda>r. - int (similarity q (fst r))) (dataset p))))"
  by (simp add: findSimilarBoardMoves_def similarities_of_nine candidates_def sort_reverse_def
        sort_key_map take_map comp_def)

lemma getBoardState_nine: "length (getBoardState c) = 9"
  by (simp add: getBoardState_def upt_3)

lemma findBestMove_returns:
  assumes "length q = 9" "list_all (\<lambda>r. length (fst r) = 9) (dataset p)"
  shows "\<exists>b. findBestMove set_order p q = Inr b"
  by (simp add: findBestMove_def similar_moves_candidates [OF assms] split: option.split)

lemma foldl_first_max:
  "\<exists>i < length (x # xs).
      foldl (\<lambda>b y. if f b < f y then y else b) x xs = (x # xs) ! i \<and>
      (\<forall>j < length (x # xs). f ((x # xs) ! j) \<le> f ((x # xs) ! i)) \<and>
      (\<forall>j < i. f ((x # xs) ! j) < f ((x # xs) ! i))"
  for f :: "'a \<Rightarrow> nat"
proof (induction xs rule: rev_induct)
  case Nil
  show ?case by simp
next
  case (snoc y ys)
  define zs where "zs = x # ys"
  have eq: "x # ys @ [y] = zs @ [y]"
    by (simp add: zs_def)
  from snoc [folded zs_def] obtain i where i: "i < length zs"
    and res: "foldl (\<lambda>b y. if f b < f y then y else b) x ys = zs ! i"
    and mx: "\<forall>j < length zs. f (zs ! j) \<le> f (zs ! i)"
    and fst: "\<forall>j < i. f (zs ! j) < f (zs ! i)"
    by blast
  show ?case
    unfolding eq
  proof (cases "f (zs ! i) < f y")
    case True
    have below: "f (zs ! j) < f y" if "j < length zs" for j
      using mx that True by fastforce
    have "foldl (\<lambda>b y. if f b < f y then y else b) x (ys @ [y]) = (zs @ [y]) ! length zs"
      using True by (simp add: res)
    moreover have "\<forall>j < length (zs @ [y]). f ((zs @ [y]) ! j) \<le> f ((zs @ [y]) ! length zs)"
      using below by (auto simp: nth_append less_Suc_eq order_less_imp_le)
    moreover have "\<forall>j < length zs. f ((zs @ [y]) ! j) < f ((zs @ [y]) ! length zs)"
      using below by (simp add: nth_append)
    ultimately show "\<exists>i < length (zs @ [y]).
      foldl (\<lambda>b y. if f b < f y then y else b) x (ys @ [y]) = (zs @ [y]) ! i \<and>
      (\<forall>j < length (zs @ [y]). f ((zs @ [y]) ! j) \<le> f ((zs @ [y]) ! i)) \<and>
      (\<forall>j < i. f ((zs @ [y]) ! j) < f ((zs @ [y]) ! i))"
      by (intro exI [of _ "length zs"]) simp
  next
    case False
    have "foldl (\<lambda>b y. if f b < f y then y else b) x (ys @ [y]) = (zs @ [y]) ! i"
      using False i by (simp add: res nth_append)
    moreover have "\<forall>j < length (zs @ [y]). f ((zs @ [y]) ! j) \<le> f ((zs @ [y]) ! i)"
      using mx False i by (auto simp: nth_append less_Suc_eq not_less)
    moreover have "\<forall>j < i. f ((zs @ [y]) ! j) < f ((zs @ [y]) ! i)"
      using fst i by (simp add: nth_append)
    ultimately show "\<exists>i < length (zs @ [y]).
      foldl (\<lambda>b y. if f b < f y then y else b) x (ys @ [y]) = (zs @ [y]) ! i \<and>
      (\<forall>j < length (zs @ [y]). f ((zs @ [y]) ! j) \<le> f ((zs @ [y]) ! i)) \<and>
      (\<forall>j < i. f ((zs @ [y]) ! j) < f ((zs @ [y]) ! i))"
      using i by (intro exI [of _ i]) simp
  qed
qed

lemma max_key_first:
  assumes "xs \<noteq> []"
  shows "\<exists>i < length xs. max_key f xs = Some (xs ! i) \<and>
           (\<forall>j < length xs. f (xs ! j) \<le> f (xs ! i)) \<and> (\<forall>j < i. f (xs ! j) < f (xs ! i))"
proof -
  from assms obtain y ys where xs: "xs = y # ys" by (cases xs) auto
  show ?thesis
    unfolding xs max_key.simps using foldl_first_max [of y ys f] by simp
qed

section \<open>The nearest-neighbour vote\<close>

text \<open>
  C5, as the code has it. For a dataset of the kind \<open>'final'\<close> that is not empty:
  \<open>srt\<close> is the dataset sorted by similarity to the query, descending, records of equal
  similarity in their original order; the candidates are those of the first five records
  of \<open>srt\<close>; the result is \<open>None\<close> when there is no candidate, and otherwise a candidate
  that no candidate exceeds in frequency. Among the most frequent candidates it is the one
  that the iteration over the set of candidates meets first, whatever that order is: all
  that is asked of \<open>set_order\<close> is that it enumerates the candidates.
\<close>

theorem findBestMove_final_most_frequent:
  assumes "\<And>cs. findSimilarBoardMoves \<lparr>dataset = ds, dataset_type = Final\<rparr> q 5 = Inr cs \<Longrightarrow>
                 set (set_order cs) = set cs"
    and "ds \<noteq> []"
    and "length q = 9"
    and "list_all (\<lambda>r. length (fst r) = 9) ds"
  shows "\<exists>srt.
           mset srt = mset ds \<and>
           sorted_wrt (\<lambda>a b. similarity q (fst b) \<le> similarity q (fst a)) srt \<and>
           (\<forall>k. filter (\<lambda>r. similarity q (fst r) = k) srt
                  = filter (\<lambda>r. similarity q (fst r) = k) ds) \<and>
           (if candidates q (take 5 srt) = []
            then findBestMove set_order \<lparr>dataset = ds, dataset_type = Final\<rparr> q = Inr None
            else \<exists>i < length (set_order (candidates q (take 5 srt))).
                   findBestMove set_order \<lparr>dataset = ds, dataset_type = Final\<rparr> q
                     = Inr (Some (set_order (candidates q (take 5 srt)) ! i)) \<and>
                   set_order (candidates q (take 5 srt)) ! i \<in> set (candidates q (take 5 srt)) \<and>
                   (\<forall>m \<in> set (candidates q (take 5 srt)).
                      count_list (candidates q (take 5 srt)) m
                        \<le> count_list (candidates q (take 5 srt))
                             (set_order (candidates q (take 5 srt)) ! i)) \<and>
                   (\<forall>j < i.
                      count_list (candidates q (take 5 srt))
                          (set_order (candidates q (take 5 srt)) ! j)
                        < count_list (candidates q (take 5 srt))
                            (set_order (candidates q (take 5 srt)) ! i)))"
proof -
  define f where "f = (\<lambda>r :: int list \<times> int. - int (similarity q (fst r)))"
  define srt where "srt = sort_key f ds"
  define cs where "cs = candidates q (take 5 srt)"
  have sm: "findSimilarBoardMoves \<lparr>dataset = ds, dataset_type = Final\<rparr> q 5 = Inr cs"
    using assms(3,4) by (simp add: similar_moves_candidates cs_def srt_def f_def)
  have res: "findBestMove set_order \<lparr>dataset = ds, dataset_type = Final\<rparr> q
               = (if cs \<noteq> [] then Inr (max_key (count_list cs) (set_order cs)) else Inr None)"
    using assms(2) by (simp add: findBestMove_def sm)
  have p1: "mset srt = mset ds"
    by (simp add: srt_def)
  have "sorted (map f srt)"
    by (simp add: srt_def)
  then have p2: "sorted_wrt (\<lambda>a b. similarity q (fst b) \<le> similarity q (fst a)) srt"
    by (simp add: sorted_map f_def)
  have p3: "filter (\<lambda>r. similarity q (fst r) = k) srt = filter (\<lambda>r. similarity q (fst r) = k) ds"
    for k
    using sort_key_stable [of f "- int k" ds] by (simp add: srt_def f_def)
  have p4: "if cs = []
            then findBestMove set_order \<lparr>dataset = ds, dataset_type = Final\<rparr> q = Inr None
            else \<exists>i < length (set_order cs).
                   findBestMove set_order \<lparr>dataset = ds, dataset_type = Final\<rparr> q
                     = Inr (Some (set_order cs ! i)) \<and>
                   set_order cs ! i \<in> set cs \<and>
                   (\<forall>m \<in> set cs. count_list cs m \<le> count_list cs (set_order cs ! i)) \<and>
                   (\<forall>j < i. count_list cs (set_order cs ! j) < count_list cs (set_order cs ! i))"
  proof (cases "cs = []")
    case True
    then show ?thesis by (simp add: res)
  next
    case False
    have so: "set (set_order cs) = set cs"
      using sm by (rule assms(1))
    then have ne: "set_order cs \<noteq> []"
      using False by auto
    from max_key_first [OF ne, of "count_list cs"] obtain i where i: "i < length (set_order cs)"
      and mk: "max_key (count_list cs) (set_order cs) = Some (set_order cs ! i)"
      and mx: "\<forall>j < length (set_order cs). count_list cs (set_order cs ! j)
                  \<le> count_list cs (set_order cs ! i)"
      and fst: "\<forall>j < i. count_list cs (set_order cs ! j) < count_list cs (set_order cs ! i)"
      by blast
    have mem: "set_order cs ! i \<in> set cs"
      using i so nth_mem by blast
    have all: "count_list cs m \<le> count_list cs (set_order cs ! i)" if "m \<in> set cs" for m
    proof -
      from that so obtain j where "j < length (set_order cs)" "set_order cs ! j = m"
        by (metis in_set_conv_nth)
      then show ?thesis using mx by blast
    qed
    show ?thesis
      using False i mk mem all fst by (auto simp: res)
  qed
  show ?thesis
    using p1 p2 p3 p4 unfolding cs_def by blast
qed

text \<open>
  Two final positions and a query in which \<open>"X"\<close> can win at index 6. The record most
  similar to the query gives the candidate 6, the second one the candidates 2 and 7: in
  the candidate list \<open>[6, 2, 7]\<close> every candidate occurs once.
\<close>

definition vote_query :: "int list" where
  "vote_query = [1, - 1, 0, 1, - 1, 0, 0, 0, 0]"

definition vote_dataset :: "(int list \<times> int) list" where
  "vote_dataset =
     [([1, - 1, 0, 1, - 1, 0, 1, 0, 0], 1), ([1, - 1, 1, 1, - 1, 0, 0, - 1, 0], - 1)]"

lemma vote_candidates:
  "findSimilarBoardMoves \<lparr>dataset = vote_dataset, dataset_type = Final\<rparr> vote_query 5
     = Inr [6, 2, 7]"
  by code_simp

theorem findBestMove_final_most_frequent_witness:
  "\<exists>srt.
           mset srt = mset vote_dataset \<and>
           sorted_wrt (\<lambda>a b. similarity vote_query (fst b) \<le> similarity vote_query (fst a)) srt \<and>
           (\<forall>k. filter (\<lambda>r. similarity vote_query (fst r) = k) srt
                  = filter (\<lambda>r. similarity vote_query (fst r) = k) vote_dataset) \<and>
           (if candidates vote_query (take 5 srt) = []
            then findBestMove cpython_set_order \<lparr>dataset = vote_dataset, dataset_type = Final\<rparr>
                   vote_query = Inr None
            else \<exists>i < length (cpython_set_order (candidates vote_query (take 5 srt))).
                   findBestMove cpython_set_order \<lparr>dataset = vote_dataset, dataset_type = Final\<rparr>
                       vote_query
                     = Inr (Some (cpython_set_order (candidates vote_query (take 5 srt)) ! i)) \<and>
                   cpython_set_order (candidates vote_query (take 5 srt)) ! i
                     \<in> set (candidates vote_query (take 5 srt)) \<and>
                   (\<forall>m \<in> set (candidates vote_query (take 5 srt)).
                      count_list (candidates vote_query (take 5 srt)) m
                        \<le> count_list (candidates vote_query (take 5 srt))
                             (cpython_set_order (candidates vote_query (take 5 srt)) ! i)) \<and>
                   (\<forall>j < i.
                      count_list (candidates vote_query (take 5 srt))
                          (cpython_set_order (candidates vote_query (take 5 srt)) ! j)
                        < count_list (candidates vote_query (take 5 srt))
                            (cpython_set_order (candidates vote_query (take 5 srt)) ! i)))"
proof (rule findBestMove_final_most_frequent)
  fix cs
  assume "findSimilarBoardMoves \<lparr>dataset = vote_dataset, dataset_type = Final\<rparr> vote_query 5
            = Inr cs"
  then have "cs = [6, 2, 7]"
    by (simp add: vote_candidates)
  then show "set (cpython_set_order cs) = set cs"
    by (auto simp: cpython_set_order_examples)
qed (simp_all add: vote_dataset_def vote_query_def)

text \<open>
  On this dataset the vote is tied. The earliest of the most frequent candidates in the
  candidate list is 6; CPython iterates the set of the candidates as 2, 6, 7, and
  \<open>findBestMove\<close> returns 2.
\<close>

theorem findBestMove_final_counterexample:
  "findSimilarBoardMoves \<lparr>dataset = vote_dataset, dataset_type = Final\<rparr> vote_query 5
     = Inr [6, 2, 7] \<and>
   first_most_frequent [6, 2, 7] = Some 6 \<and>
   cpython_set_order [6, 2, 7] = [2, 6, 7] \<and>
   findBestMove cpython_set_order \<lparr>dataset = vote_dataset, dataset_type = Final\<rparr> vote_query
     = Inr (Some 2)"
  by code_simp

section \<open>Loading a dataset with malformed lines\<close>

text \<open>The tokens of a line, and the record that a line of ten integer tokens gives.\<close>

definition tokens :: "string \<Rightarrow> string list" where
  "tokens line = split (strip line)"

definition record_of :: "string \<Rightarrow> int list \<times> int" where
  "record_of line =
     (take 9 (map (\<lambda>t. the (py_int t)) (tokens line)),
      map (\<lambda>t. the (py_int t)) (tokens line) ! 9)"

lemma split_Nil: "split [] = []"
  by (simp add: split_def)

lemma parse_ints_all:
  "parse_ints ts =
     (if list_all (\<lambda>t. py_int t \<noteq> None) ts then Some (map (\<lambda>t. the (py_int t)) ts) else None)"
  by (induction ts) (auto split: option.splits)

lemma load_lines_all:
  "load_lines ds lines =
     (if list_all (\<lambda>l. list_all (\<lambda>t. py_int t \<noteq> None) (tokens l)) lines
      then Inr (ds @ map record_of (filter (\<lambda>l. length (tokens l) = 10) lines))
      else Inl ValueError)"
proof (induction lines arbitrary: ds)
  case Nil
  show ?case by simp
next
  case (Cons l lines)
  show ?case
  proof (cases "strip l = []")
    case True
    then show ?thesis
      by (simp add: Cons.IH tokens_def split_Nil)
  next
    case False
    then show ?thesis
      by (simp add: Cons.IH parse_ints_all record_of_def tokens_def)
  qed
qed

text \<open>The limit on the digits of a literal: 4300 zeros are the integer 0, 4301 are not.\<close>

lemma int_body_zeros: "int_body 0 (replicate n (CHR ''0'')) = Some 0"
proof (induction n rule: less_induct)
  case (less n)
  show ?case
  proof (cases n)
    case 0
    then show ?thesis by simp
  next
    case (Suc m)
    show ?thesis
    proof (cases m)
      case 0
      then show ?thesis using Suc by (simp add: digit_val_def)
    next
      case (Suc k)
      then show ?thesis using \<open>n = Suc m\<close> less [of "Suc k"] by (simp add: digit_val_def)
    qed
  qed
qed

lemma py_int_zeros:
  "py_int (replicate (Suc n) (CHR ''0'')) = (if max_str_digits < Suc n then None else Some 0)"
proof -
  have d: "digit_val (CHR ''0'') = Some 0"
    by (simp add: digit_val_def)
  have n: "nat_literal (CHR ''0'' # replicate n (CHR ''0''))
             = (if max_str_digits < Suc n then None else Some 0)"
    unfolding nat_literal_def by (simp add: d int_body_zeros)
  show ?thesis
    unfolding replicate_Suc py_int_def by (simp add: n)
qed

lemma py_int_digit_limit:
  "py_int (replicate 4300 (CHR ''0'')) = Some 0"
  "py_int (replicate 4301 (CHR ''0'')) = None"
  using py_int_zeros [of 4299] py_int_zeros [of 4300]
  by (simp_all add: max_str_digits_def del: replicate_Suc replicate.simps)

text \<open>Every board state that \<open>loadDataset\<close> adds has nine integers.\<close>

lemma load_lines_nine:
  "list_all (\<lambda>r. length (fst r) = 9) ds \<Longrightarrow> load_lines ds lines = Inr ds' \<Longrightarrow>
     list_all (\<lambda>r. length (fst r) = 9) ds'"
proof (induction lines arbitrary: ds)
  case Nil
  then show ?case by simp
next
  case (Cons l lines)
  show ?case
  proof (cases "strip l = []")
    case True
    then show ?thesis
      using Cons by simp
  next
    case False
    show ?thesis
    proof (cases "parse_ints (split (strip l))")
      case None
      then show ?thesis
        using Cons.prems False by simp
    next
      case (Some vs)
      show ?thesis
      proof (cases "length vs = 10")
        case True
        have "list_all (\<lambda>r. length (fst r) = 9) (ds @ [(take 9 vs, vs ! 9)])"
          using Cons.prems(1) True by simp
        moreover have "load_lines (ds @ [(take 9 vs, vs ! 9)]) lines = Inr ds'"
          using Cons.prems(2) False Some True by simp
        ultimately show ?thesis
          by (rule Cons.IH)
      next
        case ne: False
        have "load_lines ds lines = Inr ds'"
          using Cons.prems(2) False Some ne by simp
        with Cons.prems(1) show ?thesis
          by (rule Cons.IH)
      qed
    qed
  qed
qed

text \<open>
  C6, as the code has it. When every token of every line is an integer literal,
  \<open>loadDataset\<close> returns, and has added exactly the records of the lines of ten tokens, in
  their order: the other lines are skipped. When some line has a token that is not an
  integer literal, \<open>loadDataset\<close> does not return: the \<open>ValueError\<close> of \<open>int\<close> leaves it.
\<close>

theorem loadDataset_lines:
  "if list_all (\<lambda>l. list_all (\<lambda>t. py_int t \<noteq> None) (tokens l)) lines
   then \<exists>k. loadDataset ds filename (Some lines)
              = Inr (k, ds @ map record_of (filter (\<lambda>l. length (tokens l) = 10) lines))
   else loadDataset ds filename (Some lines) = Inl ValueError"
  by (simp add: loadDataset_def load_lines_all)

text \<open>
  A file of five lines: a blank line, a line of three tokens, and three lines of ten
  integer tokens, the last with a no-break space between two tokens and a next-line
  character at its end.
\<close>

definition good_lines :: "string list" where
  "good_lines =
     [''1 -1 0 0 0 0 0 0 0 4'', '''', ''1 0 0'', ''  0 1 -1 0 0 0 0 0 0 +8  '',
      ''1'' @ [CHR 0xA0] @ ''-1 1 0 0 0 0 0 0 5'' @ [CHR 0x85]]"

definition bad_lines :: "string list" where
  "bad_lines = [''1 -1 0 0 0 0 0 0 0 4'', ''1 0 0 0 0 0 0 0 0 x'', ''0 1 -1 0 0 0 0 0 0 8'']"

lemma good_lines_parse:
  "list_all (\<lambda>l. list_all (\<lambda>t. py_int t \<noteq> None) (tokens l)) good_lines"
  by code_simp

lemma good_lines_records:
  "map record_of (filter (\<lambda>l. length (tokens l) = 10) good_lines)
     = [([1, - 1, 0, 0, 0, 0, 0, 0, 0], 4), ([0, 1, - 1, 0, 0, 0, 0, 0, 0], 8),
        ([1, - 1, 1, 0, 0, 0, 0, 0, 0], 5)]"
  by code_simp

theorem loadDataset_lines_witness:
  "\<exists>k. loadDataset [] ''tictac_single.txt'' (Some good_lines)
         = Inr (k, [([1, - 1, 0, 0, 0, 0, 0, 0, 0], 4), ([0, 1, - 1, 0, 0, 0, 0, 0, 0], 8),
                    ([1, - 1, 1, 0, 0, 0, 0, 0, 0], 5)])"
  using loadDataset_lines [of good_lines "[]" "''tictac_single.txt''"]
  by (simp only: good_lines_parse good_lines_records if_True append_Nil)

text \<open>A file whose second line ends in the token \<open>x\<close>: the load is aborted.\<close>

theorem loadDataset_counterexample:
  "loadDataset [] ''tictac_single.txt'' (Some bad_lines) = Inl ValueError"
  by code_simp

section \<open>The exact-match lookup\<close>

text \<open>
  C8, as the code has it. For a dataset of the kind \<open>'single'\<close>, \<open>findBestMove\<close> returns
  the output of the first record whose board state is the query, and \<open>None\<close> when no
  record has it. So a dataset in which \<open>([1,-1,0,0,0,0,0,0,0], 4)\<close> is the first record
  with that board state makes the query \<open>[1,-1,0,0,0,0,0,0,0]\<close> return 4, and so does a
  dataset that contains this record and no record with that board state and another
  output.
\<close>

theorem findBestMove_single_first_match:
  "(\<forall>pre r post. ds = pre @ r # post \<and> fst r = q \<and> (\<forall>x \<in> set pre. fst x \<noteq> q) \<longrightarrow>
       findBestMove set_order \<lparr>dataset = ds, dataset_type = Single\<rparr> q = Inr (Some (snd r))) \<and>
   ((\<forall>x \<in> set ds. fst x \<noteq> q) \<longrightarrow>
       findBestMove set_order \<lparr>dataset = ds, dataset_type = Single\<rparr> q = Inr None) \<and>
   ((\<forall>x \<in> set before. fst x \<noteq> [1, - 1, 0, 0, 0, 0, 0, 0, 0]) \<longrightarrow>
       findBestMove set_order
         \<lparr>dataset = before @ ([1, - 1, 0, 0, 0, 0, 0, 0, 0], 4) # after, dataset_type = Single\<rparr>
         [1, - 1, 0, 0, 0, 0, 0, 0, 0] = Inr (Some 4)) \<and>
   (([1, - 1, 0, 0, 0, 0, 0, 0, 0], 4) \<in> set ds \<and>
    (\<forall>x \<in> set ds. fst x = [1, - 1, 0, 0, 0, 0, 0, 0, 0] \<longrightarrow> snd x = 4) \<longrightarrow>
       findBestMove set_order \<lparr>dataset = ds, dataset_type = Single\<rparr>
         [1, - 1, 0, 0, 0, 0, 0, 0, 0] = Inr (Some 4))"
proof -
  have hit: "find (\<lambda>x. fst x = s) (pre @ r # post) = Some r"
    if "fst r = s" "\<forall>x \<in> set pre. fst x \<noteq> s" for pre post s and r :: "int list \<times> int"
    using that by (induction pre) auto
  have miss: "find (\<lambda>x. fst x = q) ds = None" if "\<forall>x \<in> set ds. fst x \<noteq> q"
    using that by (induction ds) auto
  have only: "\<exists>r. find (\<lambda>x. fst x = s) ds = Some r \<and> snd r = v"
    if "(s, v) \<in> set ds" "\<forall>x \<in> set ds. fst x = s \<longrightarrow> snd x = v" for s and v :: int
    using that by (induction ds) auto
  have c1: "\<forall>pre r post. ds = pre @ r # post \<and> fst r = q \<and> (\<forall>x \<in> set pre. fst x \<noteq> q) \<longrightarrow>
       findBestMove set_order \<lparr>dataset = ds, dataset_type = Single\<rparr> q = Inr (Some (snd r))"
    by (auto simp: findBestMove_def hit)
  have c2: "(\<forall>x \<in> set ds. fst x \<noteq> q) \<longrightarrow>
       findBestMove set_order \<lparr>dataset = ds, dataset_type = Single\<rparr> q = Inr None"
    by (auto simp: findBestMove_def miss)
  have c3: "(\<forall>x \<in> set before. fst x \<noteq> [1, - 1, 0, 0, 0, 0, 0, 0, 0]) \<longrightarrow>
       findBestMove set_order
         \<lparr>dataset = before @ ([1, - 1, 0, 0, 0, 0, 0, 0, 0], 4) # after, dataset_type = Single\<rparr>
         [1, - 1, 0, 0, 0, 0, 0, 0, 0] = Inr (Some 4)"
    by (auto simp: findBestMove_def hit)
  have c4: "([1, - 1, 0, 0, 0, 0, 0, 0, 0], 4) \<in> set ds \<and>
    (\<forall>x \<in> set ds. fst x = [1, - 1, 0, 0, 0, 0, 0, 0, 0] \<longrightarrow> snd x = 4) \<longrightarrow>
       findBestMove set_order \<lparr>dataset = ds, dataset_type = Single\<rparr>
         [1, - 1, 0, 0, 0, 0, 0, 0, 0] = Inr (Some 4)"
  proof
    assume a: "([1, - 1, 0, 0, 0, 0, 0, 0, 0], 4) \<in> set ds \<and>
      (\<forall>x \<in> set ds. fst x = [1, - 1, 0, 0, 0, 0, 0, 0, 0] \<longrightarrow> snd x = 4)"
    then have ne: "ds \<noteq> []" by auto
    from only [of "[1, - 1, 0, 0, 0, 0, 0, 0, 0]" 4] a
    obtain r where "find (\<lambda>x. fst x = [1, - 1, 0, 0, 0, 0, 0, 0, 0]) ds = Some r" "snd r = 4"
      by blast
    then show "findBestMove set_order \<lparr>dataset = ds, dataset_type = Single\<rparr>
         [1, - 1, 0, 0, 0, 0, 0, 0, 0] = Inr (Some 4)"
      using ne by (simp add: findBestMove_def)
  qed
  show ?thesis
    using c1 c2 c3 c4 by (intro conjI)
qed

theorem findBestMove_single_first_match_witness:
  "findBestMove cpython_set_order
     \<lparr>dataset = [([0, 0, 0, 0, 0, 0, 0, 0, 0], 0), ([1, - 1, 0, 0, 0, 0, 0, 0, 0], 4),
                 ([1, - 1, 0, 0, 0, 0, 0, 0, 0], 7)], dataset_type = Single\<rparr>
     [1, - 1, 0, 0, 0, 0, 0, 0, 0] = Inr (Some 4) \<and>
   findBestMove cpython_set_order
     \<lparr>dataset = [([0, 0, 0, 0, 0, 0, 0, 0, 0], 0)], dataset_type = Single\<rparr>
     [1, - 1, 0, 0, 0, 0, 0, 0, 0] = Inr None \<and>
   findBestMove cpython_set_order
     \<lparr>dataset = [([0, 0, 0, 0, 0, 0, 0, 0, 0], 0), ([1, - 1, 0, 0, 0, 0, 0, 0, 0], 4),
                 ([1, 0, 0, 0, - 1, 0, 0, 0, 0], 8), ([1, - 1, 0, 0, 0, 0, 0, 0, 0], 4)],
      dataset_type = Single\<rparr>
     [1, - 1, 0, 0, 0, 0, 0, 0, 0] = Inr (Some 4)"
proof -
  note t = findBestMove_single_first_match
  have a: "findBestMove cpython_set_order
     \<lparr>dataset = [([0, 0, 0, 0, 0, 0, 0, 0, 0], 0)] @ ([1, - 1, 0, 0, 0, 0, 0, 0, 0], 4) #
                 [([1, - 1, 0, 0, 0, 0, 0, 0, 0], 7)], dataset_type = Single\<rparr>
     [1, - 1, 0, 0, 0, 0, 0, 0, 0] = Inr (Some 4)"
    by (rule t [THEN conjunct2, THEN conjunct2, THEN conjunct1, THEN mp]) simp
  have b: "findBestMove cpython_set_order
     \<lparr>dataset = [([0, 0, 0, 0, 0, 0, 0, 0, 0], 0)], dataset_type = Single\<rparr>
     [1, - 1, 0, 0, 0, 0, 0, 0, 0] = Inr None"
    by (rule t [THEN conjunct2, THEN conjunct1, THEN mp]) simp
  have c: "findBestMove cpython_set_order
     \<lparr>dataset = [([0, 0, 0, 0, 0, 0, 0, 0, 0], 0), ([1, - 1, 0, 0, 0, 0, 0, 0, 0], 4),
                 ([1, 0, 0, 0, - 1, 0, 0, 0, 0], 8), ([1, - 1, 0, 0, 0, 0, 0, 0, 0], 4)],
      dataset_type = Single\<rparr>
     [1, - 1, 0, 0, 0, 0, 0, 0, 0] = Inr (Some 4)"
    by (rule t [THEN conjunct2, THEN conjunct2, THEN conjunct2, THEN mp]) simp
  show ?thesis
    using a b c by simp
qed

section \<open>The move of the dataset player is an available cell\<close>

lemma available_C_iff:
  "x \<in> set (getAvailableMoves_C g) \<longleftrightarrow>
     (\<exists>i < 3. \<exists>j < 3. board g i j = Blank \<and> x = int i * 3 + int j)"
proof -
  have three: "(\<exists>i<3. P i) \<longleftrightarrow> P 0 \<or> P 1 \<or> P (2 :: nat)" for P
  proof -
    have "{..<3 :: nat} = {0, 1, 2}" by auto
    then show ?thesis by (metis insert_iff lessThan_iff empty_iff)
  qed
  show ?thesis
    unfolding three by (auto simp: getAvailableMoves_C_def upt_3)
qed

lemma index_row_col:
  assumes "i < 3" "j < 3"
  shows "(int i * 3 + int j) div 3 = int i" "(int i * 3 + int j) mod 3 = int j"
  using assms by simp_all

lemma available_C_sorted: "sorted_wrt (<) (getAvailableMoves_C g)"
  unfolding getAvailableMoves_C_def upt_3
  by (simp add: sorted_wrt_append)

lemma available_C_distinct: "distinct (getAvailableMoves_C g)"
  using available_C_sorted [of g] strict_sorted_iff by blast

text \<open>
  C7. On a board with an empty cell, with a dataset of board states of nine integers, with
  any iteration order of sets and any number drawn, \<open>getMLMove\<close> returns a pair whose flat
  index is an available move: the prediction of the dataset when that is an available
  move, and otherwise the available move at the drawn position. The cell is in range and
  blank. The available moves are pairwise distinct, so that a position drawn uniformly
  gives each of them with the same probability.
\<close>

theorem getMLMove_available:
  assumes "i < 3" "j < 3" "board g i j = Blank"
    and "list_all (\<lambda>r. length (fst r) = 9) (dataset (ml_player g))"
  shows "\<exists>row col.
           getMLMove set_order g rnd = Inr (row, col) \<and>
           row * 3 + col \<in> set (getAvailableMoves_C g) \<and>
           (if \<exists>m. findBestMove set_order (ml_player g) (getBoardState (board g)) = Inr (Some m) \<and>
                    m \<in> set (getAvailableMoves_C g)
            then findBestMove set_order (ml_player g) (getBoardState (board g))
                   = Inr (Some (row * 3 + col))
            else row * 3 + col
                   = getAvailableMoves_C g ! (rnd mod length (getAvailableMoves_C g))) \<and>
           0 \<le> row \<and> row \<le> 2 \<and> 0 \<le> col \<and> col \<le> 2 \<and>
           board g (nat row) (nat col) = Blank \<and>
           distinct (getAvailableMoves_C g)"
proof -
  let ?av = "getAvailableMoves_C g"
  let ?best = "findBestMove set_order (ml_player g) (getBoardState (board g))"
  have ne: "?av \<noteq> []"
    using assms(1-3) available_C_iff [of "int i * 3 + int j" g] by auto
  have cell: "x div 3 * 3 + x mod 3 = x \<and> 0 \<le> x div 3 \<and> x div 3 \<le> 2 \<and> 0 \<le> x mod 3 \<and>
              x mod 3 \<le> 2 \<and> board g (nat (x div 3)) (nat (x mod 3)) = Blank"
    if "x \<in> set ?av" for x
  proof -
    from that obtain a b where ab: "a < 3" "b < 3" "board g a b = Blank" "x = int a * 3 + int b"
      by (auto simp: available_C_iff)
    show ?thesis
      using ab(1-3) unfolding ab(4) index_row_col [OF ab(1,2)] by simp
  qed
  define chosen where "chosen = ?av ! (rnd mod length ?av)"
  have chosen: "chosen \<in> set ?av"
    using ne by (simp add: chosen_def)
  have fallback: "map_sum id indexToRowCol (random_choice ?av rnd) = Inr (chosen div 3, chosen mod 3)"
    using ne by (simp add: random_choice_def indexToRowCol_def chosen_def)
  from findBestMove_returns [OF getBoardState_nine assms(4)]
  obtain b where b: "?best = Inr b" by blast
  show ?thesis
  proof (cases "\<exists>m. ?best = Inr (Some m) \<and> m \<in> set ?av")
    case True
    then obtain m where m: "?best = Inr (Some m)" "m \<in> set ?av" by blast
    have "getMLMove set_order g rnd = Inr (m div 3, m mod 3)"
      using m by (simp add: getMLMove_def indexToRowCol_def)
    then show ?thesis
      unfolding if_P [OF True]
      using cell [OF m(2)] m available_C_distinct [of g]
      by (intro exI [of _ "m div 3", OF exI [of _ "m mod 3"]]) simp
  next
    case False
    then have "getMLMove set_order g rnd = Inr (chosen div 3, chosen mod 3)"
      using b by (simp add: getMLMove_def fallback Let_def split: option.split)
    moreover have "chosen div 3 * 3 + chosen mod 3 = ?av ! (rnd mod length ?av)"
      by (simp add: chosen_def)
    ultimately show ?thesis
      unfolding if_not_P [OF False]
      using cell [OF chosen] chosen available_C_distinct [of g]
      by (intro exI [of _ "chosen div 3", OF exI [of _ "chosen mod 3"]]) simp
  qed
qed

text \<open>An empty board, no dataset, and the number 4 drawn: the centre.\<close>

definition fresh_ml_game :: ml_game where
  "fresh_ml_game =
     \<lparr>board = Board, turn = Cross, human = Cross, computer = Nought,
      ml_player = \<lparr>dataset = [], dataset_type = Single\<rparr>\<rparr>"

lemma fresh_moves: "getAvailableMoves_C fresh_ml_game = [0, 1, 2, 3, 4, 5, 6, 7, 8]"
  by (simp add: getAvailableMoves_C_def fresh_ml_game_def Board_def upt_3)

theorem getMLMove_available_witness:
  "getMLMove cpython_set_order fresh_ml_game 4 = Inr (1, 1) \<and>
   (1 :: int) * 3 + 1 \<in> set (getAvailableMoves_C fresh_ml_game)"
proof -
  have b: "board fresh_ml_game 0 0 = Blank"
    by (simp add: fresh_ml_game_def Board_def)
  have d: "list_all (\<lambda>r. length (fst r) = 9) (dataset (ml_player fresh_ml_game))"
    by (simp add: fresh_ml_game_def)
  have none: "findBestMove cpython_set_order (ml_player fresh_ml_game)
                (getBoardState (board fresh_ml_game)) = Inr None"
    by (simp add: findBestMove_def fresh_ml_game_def)
  have h: "(0 :: nat) < 3" by simp
  from getMLMove_available [of 0 0 fresh_ml_game cpython_set_order 4, OF h h b d]
  obtain row col where r: "getMLMove cpython_set_order fresh_ml_game 4 = Inr (row, col)"
    and e: "if \<exists>m. findBestMove cpython_set_order (ml_player fresh_ml_game)
                       (getBoardState (board fresh_ml_game)) = Inr (Some m) \<and>
                    m \<in> set (getAvailableMoves_C fresh_ml_game)
            then findBestMove cpython_set_order (ml_player fresh_ml_game)
                   (getBoardState (board fresh_ml_game)) = Inr (Some (row * 3 + col))
            else row * 3 + col
                   = getAvailableMoves_C fresh_ml_game !
                       (4 mod length (getAvailableMoves_C fresh_ml_game))"
    and rg: "0 \<le> row" "0 \<le> col" "col \<le> 2"
    by blast
  from e have i: "row * 3 + col = 4"
    by (simp add: none fresh_moves)
  from i rg have "row = 1 \<and> col = 1" by presburger
  then show ?thesis
    using r by (simp add: fresh_moves)
qed

end
